theory Spec2Isabelle
  imports Complex_Main "HOL-Library.Word" "HOL-Library.Multiset"
begin

section \<open>Data model\<close>

text \<open>
  The curve engine of the editor lives in \<^verbatim>\<open>utils/curve.ts\<close> (interpolation, lookup
  tables) and in the hook \<^verbatim>\<open>useCurvePoints\<close> (point management).  A JavaScript
  \<^verbatim>\<open>number\<close> is modelled as a real: the arithmetic below is exact, so rounding error
  of IEEE doubles, \<^verbatim>\<open>NaN\<close> and the infinities are outside the model.  An array
  index (\<^verbatim>\<open>index: number\<close>) is an integer.

  The interpolators round their result to an integer.  Inside a segment the exact result
  and the result in doubles can fall on different sides of a half, so the model says
  nothing reliable about such values.  The theorems below use the arithmetic of a segment
  only where this cannot happen: at the boundaries (no arithmetic), at a control point
  (\<open>t = 1\<close>, where every product is exact), for the diagonal under the monotone
  interpolator (the exact result is the integer \<open>i\<close>, half a unit away from where
  the rounding changes) and for one Catmull-Rom value that is 52.06 before rounding.

  \<^verbatim>\<open>interface CurvePoint { x: number; y: number }\<close>: the fields are called
  \<open>px\<close> and \<open>py\<close> here, so that \<open>x\<close> and \<open>y\<close> stay free for variables.
\<close>

record CurvePoint =
  px :: real
  py :: real

datatype Channel = Master | Red | Green | Blue

record ChannelPoints =
  master :: "CurvePoint list"
  red :: "CurvePoint list"
  green :: "CurvePoint list"
  blue :: "CurvePoint list"

text \<open>A \<^verbatim>\<open>Uint8Array\<close> is a list of bytes.\<close>

type_synonym Uint8Array = "8 word list"

record LUTData =
  lutMaster :: Uint8Array
  lutRed :: Uint8Array
  lutGreen :: Uint8Array
  lutBlue :: Uint8Array

datatype Interpolation = Monotone | CatmullRom

definition MIN_POINT_DISTANCE :: real where
  "MIN_POINT_DISTANCE = 5"

section \<open>Curve utilities\<close>

text \<open>\<^verbatim>\<open>Math.min(Math.max(value, min), max)\<close>\<close>

definition clamp :: "real \<Rightarrow> real \<Rightarrow> real \<Rightarrow> real" where
  "clamp v lo hi = min (max v lo) hi"

definition getDefaultPoints :: "CurvePoint list" where
  "getDefaultPoints = [\<lparr>px = 0, py = 0\<rparr>, \<lparr>px = 255, py = 255\<rparr>]"

definition getDefaultChannelPoints :: ChannelPoints where
  "getDefaultChannelPoints =
     \<lparr>master = getDefaultPoints, red = getDefaultPoints,
      green = getDefaultPoints, blue = getDefaultPoints\<rparr>"

text \<open>
  \<^verbatim>\<open>[...points].sort((a, b) => a.x - b.x)\<close>: a stable sort by \<open>x\<close> of a copy.
\<close>

definition sortPoints :: "CurvePoint list \<Rightarrow> CurvePoint list" where
  "sortPoints points = sort_key px points"

text \<open>\<^verbatim>\<open>Math.round\<close> rounds halves up.\<close>

definition jsRound :: "real \<Rightarrow> real" where
  "jsRound v = of_int \<lfloor>v + 1 / 2\<rfloor>"

text \<open>
  The segment search shared by both interpolators:
  \<^verbatim>\<open>let i = 0; while (i < n - 1 && sorted[i + 1].x < x) i++;\<close>
  (the source's array \<^verbatim>\<open>sorted\<close> is called \<open>srt\<close>, its query \<^verbatim>\<open>x\<close> is \<open>qx\<close>).
\<close>

function findSegment :: "CurvePoint list \<Rightarrow> real \<Rightarrow> nat \<Rightarrow> nat" where
  "findSegment srt qx i =
     (if i < length srt - 1 \<and> px (srt ! (i + 1)) < qx
      then findSegment srt qx (i + 1) else i)"
  by pat_completeness auto
termination
  by (relation "measure (\<lambda>(srt, qx, i). length srt - i)") auto

declare findSegment.simps [simp del]

text \<open>The tangents by finite differences at the two ends of segment \<open>i\<close>.\<close>

definition tangent0 :: "CurvePoint list \<Rightarrow> nat \<Rightarrow> real" where
  "tangent0 srt i =
     (let x0 = px (srt ! i); x1 = px (srt ! (i + 1));
          y0 = py (srt ! i); y1 = py (srt ! (i + 1));
          dx = x1 - x0; dy = y1 - y0
      in if i = 0 then dy / dx
         else let prevDx = x0 - px (srt ! (i - 1));
                  prevDy = y0 - py (srt ! (i - 1))
              in if prevDx = 0 then 0 else (dy / dx + prevDy / prevDx) / 2)"

definition tangent1 :: "CurvePoint list \<Rightarrow> nat \<Rightarrow> real" where
  "tangent1 srt i =
     (let n = length srt;
          x0 = px (srt ! i); x1 = px (srt ! (i + 1));
          y0 = py (srt ! i); y1 = py (srt ! (i + 1));
          dx = x1 - x0; dy = y1 - y0
      in if i = n - 2 then dy / dx
         else let nextDx = px (srt ! (i + 2)) - x1;
                  nextDy = py (srt ! (i + 2)) - y1
              in if nextDx = 0 then 0 else (dy / dx + nextDy / nextDx) / 2)"

text \<open>
  The block under \<^verbatim>\<open>// Ensure monotonicity\<close>: the pair of tangents after the
  limiter.  The rescaling uses \<open>alpha\<close> and \<open>beta\<close> as they were before a negative
  tangent was zeroed, as the source does.
\<close>

definition limitTangents :: "real \<Rightarrow> real \<Rightarrow> real \<Rightarrow> real \<times> real" where
  "limitTangents slope m0 m1 =
     (if slope = 0 then (0, 0)
      else let alpha = m0 / slope; beta = m1 / slope;
               m0a = (if alpha < 0 then 0 else m0);
               m1a = (if beta < 0 then 0 else m1);
               sum = alpha * alpha + beta * beta
           in if sum > 9
              then let tau = 3 / sqrt sum in (tau * alpha * slope, tau * beta * slope)
              else (m0a, m1a))"

text \<open>The cubic Hermite basis at \<open>t\<close>.\<close>

definition hermite :: "real \<Rightarrow> real \<Rightarrow> real \<Rightarrow> real \<Rightarrow> real \<Rightarrow> real \<Rightarrow> real" where
  "hermite t y0 y1 dx m0 m1 =
     (let t2 = t * t; t3 = t2 * t;
          h00 = 2 * t3 - 3 * t2 + 1;
          h10 = t3 - 2 * t2 + t;
          h01 = - 2 * t3 + 3 * t2;
          h11 = t3 - t2
      in h00 * y0 + h10 * dx * m0 + h01 * y1 + h11 * dx * m1)"

text \<open>
  Each interpolator sorts a copy of its argument and then only reads the copy.  The part
  after \<^verbatim>\<open>const sorted = sortPoints(points)\<close> is a function of the sorted copy.
\<close>

definition monotoneCubicOnSorted :: "CurvePoint list \<Rightarrow> real \<Rightarrow> real" where
  "monotoneCubicOnSorted srt qx =
     (let n = length srt
      in if n = 0 then qx
         else if n = 1 then py (srt ! 0)
         else if qx \<le> px (srt ! 0) then py (srt ! 0)
         else if qx \<ge> px (srt ! (n - 1)) then py (srt ! (n - 1))
         else
           let i = findSegment srt qx 0;
               x0 = px (srt ! i); x1 = px (srt ! (i + 1));
               y0 = py (srt ! i); y1 = py (srt ! (i + 1));
               dx = x1 - x0; dy = y1 - y0
           in if dx = 0 then y0
              else
                let (m0, m1) = limitTangents (dy / dx) (tangent0 srt i) (tangent1 srt i);
                    t = (qx - x0) / dx
                in clamp (jsRound (hermite t y0 y1 dx m0 m1)) 0 255)"

definition monotoneCubicInterpolation :: "CurvePoint list \<Rightarrow> real \<Rightarrow> real" where
  "monotoneCubicInterpolation points qx = monotoneCubicOnSorted (sortPoints points) qx"

definition catmullRomOnSorted :: "CurvePoint list \<Rightarrow> real \<Rightarrow> real" where
  "catmullRomOnSorted srt qx =
     (let n = length srt
      in if n = 0 then qx
         else if n = 1 then py (srt ! 0)
         else if qx \<le> px (srt ! 0) then py (srt ! 0)
         else if qx \<ge> px (srt ! (n - 1)) then py (srt ! (n - 1))
         else
           let i = findSegment srt qx 0;
               p0 = srt ! (nat (max 0 (int i - 1)));
               p1 = srt ! i;
               p2 = srt ! (min (n - 1) (i + 1));
               p3 = srt ! (min (n - 1) (i + 2));
               dx = px p2 - px p1
           in if dx = 0 then py p1
              else
                let t = (qx - px p1) / dx; t2 = t * t; t3 = t2 * t;
                    result = 0.5 * (2 * py p1 + (- py p0 + py p2) * t
                       + (2 * py p0 - 5 * py p1 + 4 * py p2 - py p3) * t2
                       + (- py p0 + 3 * py p1 - 3 * py p2 + py p3) * t3)
                in clamp (jsRound result) 0 255)"

definition catmullRomInterpolation :: "CurvePoint list \<Rightarrow> real \<Rightarrow> real" where
  "catmullRomInterpolation points qx = catmullRomOnSorted (sortPoints points) qx"

text \<open>
  Storing a number in a \<^verbatim>\<open>Uint8Array\<close> truncates it towards zero and wraps it
  modulo 256.
\<close>

definition toUint8 :: "real \<Rightarrow> 8 word" where
  "toUint8 v = word_of_int (if v \<ge> 0 then \<lfloor>v\<rfloor> else \<lceil>v\<rceil>)"

definition interpolate :: "Interpolation \<Rightarrow> CurvePoint list \<Rightarrow> real \<Rightarrow> real" where
  "interpolate kind =
     (case kind of Monotone \<Rightarrow> monotoneCubicInterpolation
                 | CatmullRom \<Rightarrow> catmullRomInterpolation)"

definition generateChannelLUT :: "CurvePoint list \<Rightarrow> Interpolation \<Rightarrow> Uint8Array" where
  "generateChannelLUT points kind =
     map (\<lambda>i. toUint8 (interpolate kind points (real i))) [0..<256]"

definition generateLUT :: "ChannelPoints \<Rightarrow> Interpolation \<Rightarrow> LUTData" where
  "generateLUT channelPoints kind =
     \<lparr>lutMaster = generateChannelLUT (master channelPoints) kind,
      lutRed = generateChannelLUT (red channelPoints) kind,
      lutGreen = generateChannelLUT (green channelPoints) kind,
      lutBlue = generateChannelLUT (blue channelPoints) kind\<rparr>"

text \<open>
  Reading \<^verbatim>\<open>lut[v]\<close> from a typed array gives \<^verbatim>\<open>undefined\<close> (\<open>None\<close>) unless
  \<open>v\<close> is an integer index inside the array.
\<close>

definition lutGet :: "Uint8Array \<Rightarrow> real \<Rightarrow> 8 word option" where
  "lutGet t v =
     (if of_int \<lfloor>v\<rfloor> = v \<and> 0 \<le> v \<and> v < real (length t)
      then Some (t ! nat \<lfloor>v\<rfloor>) else None)"

text \<open>
  \<^verbatim>\<open>applyLUT\<close>: the three channel lookups first, then the reassignment of each
  variable through the master table.  Indexing with \<^verbatim>\<open>undefined\<close> gives
  \<^verbatim>\<open>undefined\<close> again.
\<close>

definition throughMaster :: "LUTData \<Rightarrow> 8 word option \<Rightarrow> 8 word option" where
  "throughMaster lut v =
     (case v of None \<Rightarrow> None | Some w \<Rightarrow> lutGet (lutMaster lut) (real (unat w)))"

definition applyLUT ::
  "real \<Rightarrow> real \<Rightarrow> real \<Rightarrow> LUTData \<Rightarrow> 8 word option \<times> 8 word option \<times> 8 word option" where
  "applyLUT r g b lut =
     (let newR = lutGet (lutRed lut) (clamp r 0 255);
          newG = lutGet (lutGreen lut) (clamp g 0 255);
          newB = lutGet (lutBlue lut) (clamp b 0 255);
          newR = throughMaster lut newR;
          newG = throughMaster lut newG;
          newB = throughMaster lut newB
      in (newR, newG, newB))"

section \<open>Point management: the hook \<^verbatim>\<open>useCurvePoints\<close>\<close>

text \<open>\<^verbatim>\<open>points[channel]\<close> and \<^verbatim>\<open>{ ...points, [channel]: v }\<close>\<close>

definition getChannel :: "ChannelPoints \<Rightarrow> Channel \<Rightarrow> CurvePoint list" where
  "getChannel points channel =
     (case channel of Master \<Rightarrow> master points | Red \<Rightarrow> red points
                    | Green \<Rightarrow> green points | Blue \<Rightarrow> blue points)"

definition setChannel :: "ChannelPoints \<Rightarrow> Channel \<Rightarrow> CurvePoint list \<Rightarrow> ChannelPoints" where
  "setChannel points channel v =
     (case channel of Master \<Rightarrow> points\<lparr>master := v\<rparr> | Red \<Rightarrow> points\<lparr>red := v\<rparr>
                    | Green \<Rightarrow> points\<lparr>green := v\<rparr> | Blue \<Rightarrow> points\<lparr>blue := v\<rparr>)"

text \<open>
  The loop of \<^verbatim>\<open>addPoint\<close>:
  \<^verbatim>\<open>for (const p of sorted) if (Math.abs(p.x - point.x) < MIN_POINT_DISTANCE) return;\<close>
\<close>

fun tooClose :: "CurvePoint list \<Rightarrow> CurvePoint \<Rightarrow> bool" where
  "tooClose [] point = False"
| "tooClose (p # rest) point =
     (if \<bar>px p - px point\<bar> < MIN_POINT_DISTANCE then True else tooClose rest point)"

text \<open>
  Each operation returns \<open>None\<close> when the source returns before it calls
  \<^verbatim>\<open>updatePoints\<close>, and \<open>Some newPoints\<close> when it calls
  \<^verbatim>\<open>updatePoints(newPoints)\<close>.
\<close>

definition addPoint :: "ChannelPoints \<Rightarrow> Channel \<Rightarrow> CurvePoint \<Rightarrow> ChannelPoints option" where
  "addPoint points channel point =
     (let channelPoints = getChannel points channel;
          srt = sortPoints channelPoints
      in if tooClose srt point then None
         else Some (setChannel points channel (sortPoints (channelPoints @ [point]))))"

text \<open>\<^verbatim>\<open>sorted.filter((_, i) => i !== index)\<close>\<close>

definition filterIndex :: "CurvePoint list \<Rightarrow> int \<Rightarrow> CurvePoint list" where
  "filterIndex srt index = map snd (filter (\<lambda>(i, p). int i \<noteq> index) (enumerate 0 srt))"

definition removePoint :: "ChannelPoints \<Rightarrow> Channel \<Rightarrow> int \<Rightarrow> ChannelPoints option" where
  "removePoint points channel index =
     (let channelPoints = getChannel points channel
      in if length channelPoints \<le> 2 then None
         else
           let srt = sortPoints channelPoints
           in if index = 0 \<or> index = int (length srt) - 1 then None
              else Some (setChannel points channel (filterIndex srt index)))"

text \<open>
  Reading \<^verbatim>\<open>channelPoints[i].x\<close> throws a \<^verbatim>\<open>TypeError\<close> when \<open>i\<close> is outside the
  array, since the element is \<^verbatim>\<open>undefined\<close>.
\<close>

datatype error = TypeError

definition arrayGet :: "'a list \<Rightarrow> int \<Rightarrow> 'a option" where
  "arrayGet xs i = (if 0 \<le> i \<and> i < int (length xs) then Some (xs ! nat i) else None)"

text \<open>\<^verbatim>\<open>channelPoints.map((p, i) => i === index ? { x, y } : p)\<close>\<close>

definition mapIndex :: "CurvePoint list \<Rightarrow> int \<Rightarrow> CurvePoint \<Rightarrow> CurvePoint list" where
  "mapIndex channelPoints index q =
     map (\<lambda>(i, p). if int i = index then q else p) (enumerate 0 channelPoints)"

definition updatePoint ::
  "ChannelPoints \<Rightarrow> Channel \<Rightarrow> int \<Rightarrow> CurvePoint \<Rightarrow> error + ChannelPoints" where
  "updatePoint points channel index newPoint =
     (let channelPoints = sortPoints (getChannel points channel);
          isFirst = (index = 0);
          isLast = (index = int (length channelPoints) - 1);
          xr = (if isFirst then Inr 0
                else if isLast then Inr 255
                else case arrayGet channelPoints (index - 1) of
                       None \<Rightarrow> Inl TypeError
                     | Some prev \<Rightarrow>
                         (case arrayGet channelPoints (index + 1) of
                            None \<Rightarrow> Inl TypeError
                          | Some next \<Rightarrow>
                              Inr (clamp (px newPoint) (px prev + MIN_POINT_DISTANCE)
                                     (px next - MIN_POINT_DISTANCE))))
      in case xr of
           Inl e \<Rightarrow> Inl e
         | Inr x \<Rightarrow>
             let y = clamp (py newPoint) 0 255
             in Inr (setChannel points channel
                       (mapIndex channelPoints index \<lparr>px = x, py = y\<rparr>)))"

subsection \<open>The session: stored points and change notifications\<close>

text \<open>
  The state of the hook: the controlled points when the parent supplies them (after the
  merge with the defaults), the internal store, and the log of \<^verbatim>\<open>onChange\<close> calls (a
  listener is taken to be present).
\<close>

record Session =
  controlledPoints :: "ChannelPoints option"
  internalPoints :: ChannelPoints
  interpolation :: Interpolation
  changes :: "(ChannelPoints \<times> LUTData) list"

definition currentPoints :: "Session \<Rightarrow> ChannelPoints" where
  "currentPoints s =
     (case controlledPoints s of Some c \<Rightarrow> c | None \<Rightarrow> internalPoints s)"

definition updatePoints :: "Session \<Rightarrow> ChannelPoints \<Rightarrow> Session" where
  "updatePoints s newPoints =
     s\<lparr>internalPoints :=
         (if controlledPoints s = None then newPoints else internalPoints s),
       changes := changes s @ [(newPoints, generateLUT newPoints (interpolation s))]\<rparr>"

text \<open>An uncontrolled session without \<^verbatim>\<open>defaultPoints\<close> starts from the diagonals.\<close>

definition initSession :: "Interpolation \<Rightarrow> Session" where
  "initSession kind =
     \<lparr>controlledPoints = None, internalPoints = getDefaultChannelPoints,
      interpolation = kind, changes = []\<rparr>"

datatype Op =
    AddPoint Channel CurvePoint
  | RemovePoint Channel int
  | UpdatePoint Channel int CurvePoint

text \<open>
  One call on the session.  A call that returns early or throws leaves the session as
  it was.
\<close>

fun step :: "Session \<Rightarrow> Op \<Rightarrow> Session" where
  "step s (AddPoint channel point) =
     (case addPoint (currentPoints s) channel point of
        None \<Rightarrow> s | Some newPoints \<Rightarrow> updatePoints s newPoints)"
| "step s (RemovePoint channel index) =
     (case removePoint (currentPoints s) channel index of
        None \<Rightarrow> s | Some newPoints \<Rightarrow> updatePoints s newPoints)"
| "step s (UpdatePoint channel index newPoint) =
     (case updatePoint (currentPoints s) channel index newPoint of
        Inl e \<Rightarrow> s | Inr newPoints \<Rightarrow> updatePoints s newPoints)"

definition run :: "Session \<Rightarrow> Op list \<Rightarrow> Session" where
  "run s ops = foldl step s ops"

subsection \<open>Arrays in a store\<close>

text \<open>
  Whether an interpolator changes the array it is given depends on aliasing, so the
  arrays are put in a store: an address is a position in the list of arrays.
  \<^verbatim>\<open>[...points]\<close> allocates a copy, \<^verbatim>\<open>.sort\<close> sorts that copy in place and returns
  its address.
\<close>

type_synonym store = "CurvePoint list list"

definition sortPointsS :: "store \<Rightarrow> nat \<Rightarrow> nat \<times> store" where
  "sortPointsS h points =
     (let copy = length h;
          h1 = h @ [h ! points]
      in (copy, h1[copy := sort_key px (h1 ! copy)]))"

definition monotoneCubicInterpolationS :: "store \<Rightarrow> nat \<Rightarrow> real \<Rightarrow> real \<times> store" where
  "monotoneCubicInterpolationS h points qx =
     (let (srt, h1) = sortPointsS h points
      in (monotoneCubicOnSorted (h1 ! srt) qx, h1))"

definition catmullRomInterpolationS :: "store \<Rightarrow> nat \<Rightarrow> real \<Rightarrow> real \<times> store" where
  "catmullRomInterpolationS h points qx =
     (let (srt, h1) = sortPointsS h points
      in (catmullRomOnSorted (h1 ! srt) qx, h1))"

subsection \<open>The invariant of a stored point set and sample values\<close>

text \<open>
  Sorted by ascending \<open>x\<close>, at least two points, and adjacent points at least
  \<open>MIN_POINT_DISTANCE\<close> apart in \<open>x\<close>.
\<close>

definition pointSetInvariant :: "CurvePoint list \<Rightarrow> bool" where
  "pointSetInvariant ps \<longleftrightarrow>
     sorted (map px ps) \<and> 2 \<le> length ps
     \<and> (\<forall>i<length ps - 1. MIN_POINT_DISTANCE \<le> \<bar>px (ps ! (i + 1)) - px (ps ! i)\<bar>)"

text \<open>The session of the scenario: the default session after \<^verbatim>\<open>addPoint('red', {x: 128, y: 200})\<close>.\<close>

definition afterFirstAdd :: Session where
  "afterFirstAdd = step (initSession Monotone) (AddPoint Red \<lparr>px = 128, py = 200\<rparr>)"

text \<open>
  A table set for the composition order: red doubles and clamps, master inverts, green
  and blue are the identity.
\<close>

definition exampleLUT :: LUTData where
  "exampleLUT =
     \<lparr>lutMaster = map (\<lambda>i. word_of_nat (255 - i)) [0..<256],
      lutRed = map (\<lambda>i. word_of_nat (min 255 (2 * i))) [0..<256],
      lutGreen = map word_of_nat [0..<256],
      lutBlue = map word_of_nat [0..<256]\<rparr>"

text \<open>Integer coordinates in \<open>[0, 255]\<close>, as the data model asks of a curve point.\<close>

definition isByte :: "real \<Rightarrow> bool" where
  "isByte v \<longleftrightarrow> v \<in> \<int> \<and> 0 \<le> v \<and> v \<le> 255"

definition integerCoordinates :: "CurvePoint list \<Rightarrow> bool" where
  "integerCoordinates ps \<longleftrightarrow> (\<forall>p\<in>set ps. isByte (px p) \<and> isByte (py p))"

text \<open>The red channel of the scenario.\<close>

definition scenarioPoints :: "CurvePoint list" where
  "scenarioPoints = [\<lparr>px = 0, py = 0\<rparr>, \<lparr>px = 128, py = 200\<rparr>, \<lparr>px = 255, py = 255\<rparr>]"

subsection \<open>Notions used for point sets that stay inside the range\<close>

text \<open>
  A point set is anchored when its \<open>x\<close> values keep the minimum distance in list order,
  it has at least two points, and it starts at \<open>x = 0\<close> and ends at \<open>x = 255\<close>.
\<close>

definition apart :: "real \<Rightarrow> real \<Rightarrow> bool" where
  "apart a b \<longleftrightarrow> a + MIN_POINT_DISTANCE \<le> b"

definition anchored :: "CurvePoint list \<Rightarrow> bool" where
  "anchored ps \<longleftrightarrow>
     sorted_wrt apart (map px ps) \<and> 2 \<le> length ps
     \<and> px (ps ! 0) = 0 \<and> px (ps ! (length ps - 1)) = 255"

definition allAnchored :: "ChannelPoints \<Rightarrow> bool" where
  "allAnchored points \<longleftrightarrow> (\<forall>channel. anchored (getChannel points channel))"

text \<open>A call that adds a point adds one with \<open>x\<close> in \<open>[0, 255]\<close>.\<close>

definition inRangeOp :: "Op \<Rightarrow> bool" where
  "inRangeOp op =
     (case op of AddPoint channel point \<Rightarrow> 0 \<le> px point \<and> px point \<le> 255 | _ \<Rightarrow> True)"

section \<open>Basic facts\<close>

lemma sortPoints_default: "sortPoints getDefaultPoints = getDefaultPoints"
  by (simp add: sortPoints_def getDefaultPoints_def)

lemma findSegment_default:
  "findSegment getDefaultPoints qx 0 = (if 255 < qx then 1 else 0)"
  apply (subst findSegment.simps)
  apply (simp add: getDefaultPoints_def)
  apply (subst findSegment.simps)
  apply simp
  done

lemma hermite_identity: "hermite (q / 255) 0 255 255 1 1 = q"
  by (simp add: hermite_def Let_def algebra_simps)

lemma jsRound_of_int: "jsRound (of_int k) = of_int k"
  unfolding jsRound_def by simp

lemma jsRound_of_nat: "jsRound (of_nat k) = of_nat k"
  using jsRound_of_int [of "int k"] by simp

lemma toUint8_of_nat: "i < 256 \<Longrightarrow> unat (toUint8 (real i)) = i"
  by (simp add: toUint8_def unat_of_nat take_bit_nat_eq_self)

section \<open>The identity curve\<close>

lemma monotone_default:
  "i < 256 \<Longrightarrow> monotoneCubicInterpolation getDefaultPoints (real i) = real i"
  apply (simp add: monotoneCubicInterpolation_def monotoneCubicOnSorted_def
      sortPoints_default Let_def findSegment_default)
  apply (simp add: getDefaultPoints_def tangent0_def tangent1_def limitTangents_def
      Let_def hermite_identity jsRound_of_nat clamp_def)
  done

lemma catmullRom_default_64: "catmullRomInterpolation getDefaultPoints 64 = 52"
  apply (simp add: catmullRomInterpolation_def catmullRomOnSorted_def
      sortPoints_default Let_def findSegment_default)
  apply (simp add: getDefaultPoints_def clamp_def jsRound_def)
  done

lemma catmullRom_default_ends:
  "catmullRomInterpolation getDefaultPoints 0 = 0"
  "catmullRomInterpolation getDefaultPoints 255 = 255"
  by (simp_all add: catmullRomInterpolation_def catmullRomOnSorted_def
      sortPoints_def Let_def getDefaultPoints_def)

text \<open>
  C1, as stated, fails: with \<^verbatim>\<open>'catmullRom'\<close> the table of the default diagonal holds
  52 at index 64.  With only two points the spline takes \<open>p0 = p1\<close> and \<open>p2 = p3\<close>, and
  the blend \<open>(255 t + 765 t\<^sup>2 - 510 t\<^sup>3) / 2\<close> is not the diagonal.
\<close>

theorem C1_catmullRom_not_identity:
  "unat (generateChannelLUT getDefaultPoints CatmullRom ! 64) = 52
   \<and> unat (generateChannelLUT getDefaultPoints CatmullRom ! 64) \<noteq> 64"
proof -
  have "generateChannelLUT getDefaultPoints CatmullRom ! 64 = toUint8 52"
    using catmullRom_default_64
    by (simp add: generateChannelLUT_def interpolate_def del: upt_Suc)
  then show ?thesis
    by (simp add: toUint8_def)
qed

text \<open>
  C1, amended: for the default two-point diagonal, \<^verbatim>\<open>generateChannelLUT\<close> with
  \<^verbatim>\<open>'monotone'\<close> produces \<open>table[i] = i\<close> for every \<open>i\<close> in 0..255; with
  \<^verbatim>\<open>'catmullRom'\<close> it produces \<open>table[0] = 0\<close> and \<open>table[255] = 255\<close>, and
  \<open>table[64] = 52\<close>.
\<close>

theorem C1_identity_curve:
  "(\<forall>i<256. unat (generateChannelLUT getDefaultPoints Monotone ! i) = i)
   \<and> unat (generateChannelLUT getDefaultPoints CatmullRom ! 0) = 0
   \<and> unat (generateChannelLUT getDefaultPoints CatmullRom ! 255) = 255
   \<and> unat (generateChannelLUT getDefaultPoints CatmullRom ! 64) = 52"
proof -
  have m: "unat (generateChannelLUT getDefaultPoints Monotone ! i) = i" if "i < 256" for i
    using that
    by (simp add: generateChannelLUT_def interpolate_def monotone_default toUint8_of_nat
        del: upt_Suc)
  have c0: "generateChannelLUT getDefaultPoints CatmullRom ! 0 = toUint8 0"
    using catmullRom_default_ends(1)
    by (simp add: generateChannelLUT_def interpolate_def del: upt_Suc)
  have c255: "generateChannelLUT getDefaultPoints CatmullRom ! 255 = toUint8 255"
    using catmullRom_default_ends(2)
    by (simp add: generateChannelLUT_def interpolate_def del: upt_Suc)
  have c64: "generateChannelLUT getDefaultPoints CatmullRom ! 64 = toUint8 52"
    using catmullRom_default_64
    by (simp add: generateChannelLUT_def interpolate_def del: upt_Suc)
  show ?thesis
    using m c0 c255 c64 by (simp add: toUint8_def)
qed

theorem C1_identity_curve_witness:
  "(128::nat) < 256 \<and> unat (generateChannelLUT getDefaultPoints Monotone ! 128) = 128"
  using C1_identity_curve by simp

section \<open>Point management\<close>

lemma tooClose_iff:
  "tooClose ps point \<longleftrightarrow> (\<exists>p\<in>set ps. \<bar>px p - px point\<bar> < MIN_POINT_DISTANCE)"
  by (induction ps) auto

lemma set_sortPoints: "set (sortPoints ps) = set ps"
  by (simp add: sortPoints_def)

lemma length_sortPoints: "length (sortPoints ps) = length ps"
  by (simp add: sortPoints_def)

lemma getChannel_setChannel: "getChannel (setChannel points channel v) channel = v"
  by (cases channel) (simp_all add: getChannel_def setChannel_def)

lemma getChannel_setChannel_other:
  "c \<noteq> channel \<Longrightarrow> getChannel (setChannel points channel v) c = getChannel points c"
  by (cases channel; cases c) (simp_all add: getChannel_def setChannel_def)

lemma filterIndex_enumerate:
  "map snd (filter (\<lambda>(i, p). int i \<noteq> index) (enumerate k xs)) =
     (if int k \<le> index \<and> index < int k + int (length xs)
      then take (nat index - k) xs @ drop (Suc (nat index - k)) xs else xs)"
proof (induction xs arbitrary: k)
  case Nil
  then show ?case by simp
next
  case (Cons a xs)
  show ?case
  proof (cases "int k = index")
    case True
    then show ?thesis using Cons [of "Suc k"] by auto
  next
    case False
    show ?thesis
    proof (cases "int k \<le> index \<and> index < int k + int (length (a # xs))")
      case True
      with False have "nat index - k = Suc (nat index - Suc k)"
        by linarith
      with True False show ?thesis using Cons [of "Suc k"] by auto
    next
      case False
      then show ?thesis using Cons [of "Suc k"] by auto
    qed
  qed
qed

lemma filterIndex_eq:
  "filterIndex srt index =
     (if 0 \<le> index \<and> index < int (length srt)
      then take (nat index) srt @ drop (Suc (nat index)) srt else srt)"
  using filterIndex_enumerate [of index 0 srt] by (simp add: filterIndex_def)

lemma red_default: "getChannel getDefaultChannelPoints Red = getDefaultPoints"
  by (simp add: getChannel_def getDefaultChannelPoints_def)

lemma addPoint_eq:
  "addPoint points channel point =
     (if \<exists>p\<in>set (getChannel points channel). \<bar>px p - px point\<bar> < MIN_POINT_DISTANCE
      then None
      else Some (setChannel points channel (sortPoints (getChannel points channel @ [point]))))"
  by (simp add: addPoint_def Let_def tooClose_iff set_sortPoints)

lemma addPoint_default_128:
  "addPoint getDefaultChannelPoints Red \<lparr>px = 128, py = 200\<rparr> =
     Some (getDefaultChannelPoints
       \<lparr>red := [\<lparr>px = 0, py = 0\<rparr>, \<lparr>px = 128, py = 200\<rparr>, \<lparr>px = 255, py = 255\<rparr>]\<rparr>)"
  by (simp add: addPoint_eq red_default)
    (simp add: getDefaultPoints_def MIN_POINT_DISTANCE_def setChannel_def sortPoints_def)

lemma currentPoints_afterFirstAdd:
  "getChannel (currentPoints afterFirstAdd) Red =
     [\<lparr>px = 0, py = 0\<rparr>, \<lparr>px = 128, py = 200\<rparr>, \<lparr>px = 255, py = 255\<rparr>]"
  by (simp add: afterFirstAdd_def initSession_def currentPoints_def addPoint_default_128
      updatePoints_def getChannel_def)

text \<open>
  C8: \<^verbatim>\<open>addPoint\<close> returns before \<^verbatim>\<open>updatePoints\<close> (the session, that is the stored
  points and the log of notifications, stays as it was) whenever a point of the channel
  is closer than \<open>MIN_POINT_DISTANCE\<close> to the new \<open>x\<close>; otherwise the point is appended,
  the channel sorted again and passed to \<^verbatim>\<open>updatePoints\<close>.  In particular adding
  \<open>(130, 50)\<close> next to a point at \<open>x = 128\<close> changes nothing.
\<close>

theorem C8_addPoint:
  "((\<exists>p\<in>set (getChannel (currentPoints s) channel).
        \<bar>px p - px point\<bar> < MIN_POINT_DISTANCE)
      \<longrightarrow> addPoint (currentPoints s) channel point = None
          \<and> step s (AddPoint channel point) = s)
   \<and> (\<not> (\<exists>p\<in>set (getChannel (currentPoints s) channel).
        \<bar>px p - px point\<bar> < MIN_POINT_DISTANCE)
      \<longrightarrow> step s (AddPoint channel point) =
            updatePoints s (setChannel (currentPoints s) channel
              (sortPoints (getChannel (currentPoints s) channel @ [point]))))
   \<and> ((\<exists>p\<in>set (getChannel (currentPoints s) channel). px p = 128)
      \<longrightarrow> step s (AddPoint channel \<lparr>px = 130, py = 50\<rparr>) = s)"
proof -
  have "\<exists>p\<in>set (getChannel (currentPoints s) channel).
          \<bar>px p - px \<lparr>px = 130, py = 50\<rparr>\<bar> < MIN_POINT_DISTANCE"
    if "\<exists>p\<in>set (getChannel (currentPoints s) channel). px p = 128"
  proof -
    from that obtain p where "p \<in> set (getChannel (currentPoints s) channel)" "px p = 128"
      by blast
    then show ?thesis
      by (intro bexI [of _ p]) (simp_all add: MIN_POINT_DISTANCE_def)
  qed
  then show ?thesis
    by (simp add: addPoint_eq)
qed

theorem C8_addPoint_witness:
  "(\<exists>p\<in>set (getChannel (currentPoints afterFirstAdd) Red). px p = 128)
   \<and> step afterFirstAdd (AddPoint Red \<lparr>px = 130, py = 50\<rparr>) = afterFirstAdd
   \<and> length (getChannel (currentPoints afterFirstAdd) Red) = 3
   \<and> \<not> (\<exists>p\<in>set (getChannel (currentPoints afterFirstAdd) Red).
          \<bar>px p - px \<lparr>px = 133, py = 50\<rparr>\<bar> < MIN_POINT_DISTANCE)
   \<and> getChannel (internalPoints (step afterFirstAdd (AddPoint Red \<lparr>px = 133, py = 50\<rparr>))) Red =
       [\<lparr>px = 0, py = 0\<rparr>, \<lparr>px = 128, py = 200\<rparr>, \<lparr>px = 133, py = 50\<rparr>,
        \<lparr>px = 255, py = 255\<rparr>]"
proof -
  have h: "\<exists>p\<in>set (getChannel (currentPoints afterFirstAdd) Red). px p = 128"
    by (simp add: currentPoints_afterFirstAdd)
  have n: "\<not> (\<exists>p\<in>set (getChannel (currentPoints afterFirstAdd) Red).
          \<bar>px p - px \<lparr>px = 133, py = 50\<rparr>\<bar> < MIN_POINT_DISTANCE)"
    by (simp add: currentPoints_afterFirstAdd MIN_POINT_DISTANCE_def)
  have c: "controlledPoints afterFirstAdd = None"
    by (simp add: afterFirstAdd_def initSession_def addPoint_default_128 currentPoints_def
        updatePoints_def)
  from C8_addPoint [of afterFirstAdd Red "\<lparr>px = 130, py = 50\<rparr>"] h
  have 1: "step afterFirstAdd (AddPoint Red \<lparr>px = 130, py = 50\<rparr>) = afterFirstAdd"
    by blast
  from C8_addPoint [of afterFirstAdd Red "\<lparr>px = 133, py = 50\<rparr>"] n
  have 2: "step afterFirstAdd (AddPoint Red \<lparr>px = 133, py = 50\<rparr>) =
            updatePoints afterFirstAdd (setChannel (currentPoints afterFirstAdd) Red
              (sortPoints (getChannel (currentPoints afterFirstAdd) Red @ [\<lparr>px = 133, py = 50\<rparr>])))"
    by blast
  have 3: "getChannel (internalPoints (step afterFirstAdd (AddPoint Red \<lparr>px = 133, py = 50\<rparr>))) Red =
       [\<lparr>px = 0, py = 0\<rparr>, \<lparr>px = 128, py = 200\<rparr>, \<lparr>px = 133, py = 50\<rparr>,
        \<lparr>px = 255, py = 255\<rparr>]"
    unfolding 2 by (simp add: updatePoints_def c getChannel_setChannel currentPoints_afterFirstAdd
        sortPoints_def)
  show ?thesis using h n 1 3 by (simp add: currentPoints_afterFirstAdd)
qed

lemma currentPoints_afterFirstAdd_eq:
  "currentPoints afterFirstAdd = getDefaultChannelPoints
       \<lparr>red := [\<lparr>px = 0, py = 0\<rparr>, \<lparr>px = 128, py = 200\<rparr>, \<lparr>px = 255, py = 255\<rparr>]\<rparr>"
  by (simp add: afterFirstAdd_def initSession_def currentPoints_def addPoint_default_128
      updatePoints_def)

text \<open>
  C9: \<^verbatim>\<open>removePoint\<close> is a no-op when the removal would leave fewer than two points
  or when the index is that of the first or the last sorted point; when it does call
  \<^verbatim>\<open>updatePoints\<close>, the channel had at least three points and what is removed is the
  interior point at that index of the sorted list (nothing, for an index outside the list).
\<close>

theorem C9_removePoint:
  "((length (getChannel (currentPoints s) channel) - 1 < 2
      \<or> index = 0
      \<or> index = int (length (getChannel (currentPoints s) channel)) - 1)
     \<longrightarrow> removePoint (currentPoints s) channel index = None
         \<and> step s (RemovePoint channel index) = s)
   \<and> (\<forall>newPoints. removePoint (currentPoints s) channel index = Some newPoints
     \<longrightarrow> 3 \<le> length (getChannel (currentPoints s) channel)
         \<and> (let srt = sortPoints (getChannel (currentPoints s) channel)
            in if 0 < index \<and> index < int (length srt) - 1
               then getChannel newPoints channel =
                      take (nat index) srt @ drop (Suc (nat index)) srt
                    \<and> length (getChannel newPoints channel) = length srt - 1
               else getChannel newPoints channel = srt))"
  by (auto simp: removePoint_def Let_def length_sortPoints getChannel_setChannel
      filterIndex_eq)

lemma removePoint_afterFirstAdd_1:
  "removePoint (currentPoints afterFirstAdd) Red 1 = Some getDefaultChannelPoints"
  by (simp add: currentPoints_afterFirstAdd_eq removePoint_def getChannel_def Let_def
      sortPoints_def filterIndex_eq setChannel_def getDefaultChannelPoints_def
      getDefaultPoints_def)

theorem C9_removePoint_witness:
  "step afterFirstAdd (RemovePoint Red 0) = afterFirstAdd
   \<and> step afterFirstAdd (RemovePoint Red 2) = afterFirstAdd
   \<and> length (getChannel (currentPoints (initSession Monotone)) Red) - 1 < 2
   \<and> step (initSession Monotone) (RemovePoint Red 1) = initSession Monotone
   \<and> removePoint (currentPoints afterFirstAdd) Red 1 = Some getDefaultChannelPoints
   \<and> getChannel getDefaultChannelPoints Red = [\<lparr>px = 0, py = 0\<rparr>, \<lparr>px = 255, py = 255\<rparr>]"
proof -
  have l: "int (length (getChannel (currentPoints afterFirstAdd) Red)) - 1 = 2"
    by (simp add: currentPoints_afterFirstAdd)
  have d: "length (getChannel (currentPoints (initSession Monotone)) Red) - 1 < 2"
    by (simp add: initSession_def currentPoints_def red_default getDefaultPoints_def)
  have 0: "step afterFirstAdd (RemovePoint Red 0) = afterFirstAdd"
    using C9_removePoint [of afterFirstAdd Red 0] by blast
  have 2: "step afterFirstAdd (RemovePoint Red 2) = afterFirstAdd"
    using C9_removePoint [of afterFirstAdd Red 2] l by simp
  have 1: "step (initSession Monotone) (RemovePoint Red 1) = initSession Monotone"
    using C9_removePoint [of "initSession Monotone" Red 1] d by blast
  have 3: "getChannel getDefaultChannelPoints Red = [\<lparr>px = 0, py = 0\<rparr>, \<lparr>px = 255, py = 255\<rparr>]"
    using C9_removePoint [of afterFirstAdd Red 1] removePoint_afterFirstAdd_1
    by (simp add: currentPoints_afterFirstAdd sortPoints_def)
  show ?thesis using 0 1 2 3 d removePoint_afterFirstAdd_1 by simp
qed

subsection \<open>Points outside the range\<close>

text \<open>
  C2 says that \<^verbatim>\<open>addPoint\<close> clamps an out-of-range point into \<open>[0, 255]\<close>.  The code
  stores the point as it came: after \<^verbatim>\<open>addPoint('red', {x: 300, y: -20})\<close> on the default
  session the red channel holds \<open>(300, -20)\<close>.
\<close>

theorem C2_addPoint_not_clamped:
  "getChannel (internalPoints (step (initSession Monotone)
       (AddPoint Red \<lparr>px = 300, py = - 20\<rparr>))) Red =
     [\<lparr>px = 0, py = 0\<rparr>, \<lparr>px = 255, py = 255\<rparr>, \<lparr>px = 300, py = - 20\<rparr>]"
  by (simp add: initSession_def currentPoints_def addPoint_eq red_default updatePoints_def
      getChannel_setChannel)
    (simp add: getDefaultPoints_def MIN_POINT_DISTANCE_def sortPoints_def)

lemma run_C3:
  "getChannel (internalPoints (run (initSession Monotone)
       [AddPoint Red \<lparr>px = 300, py = 0\<rparr>, UpdatePoint Red 2 \<lparr>px = 300, py = 0\<rparr>])) Red =
     [\<lparr>px = 0, py = 0\<rparr>, \<lparr>px = 255, py = 255\<rparr>, \<lparr>px = 255, py = 0\<rparr>]"
proof -
  have a: "addPoint getDefaultChannelPoints Red \<lparr>px = 300, py = 0\<rparr> =
     Some (getDefaultChannelPoints
       \<lparr>red := [\<lparr>px = 0, py = 0\<rparr>, \<lparr>px = 255, py = 255\<rparr>, \<lparr>px = 300, py = 0\<rparr>]\<rparr>)"
    by (simp add: addPoint_eq red_default)
      (simp add: getDefaultPoints_def MIN_POINT_DISTANCE_def setChannel_def sortPoints_def)
  have u: "updatePoint (getDefaultChannelPoints
       \<lparr>red := [\<lparr>px = 0, py = 0\<rparr>, \<lparr>px = 255, py = 255\<rparr>, \<lparr>px = 300, py = 0\<rparr>]\<rparr>) Red 2
         \<lparr>px = 300, py = 0\<rparr> =
     Inr (getDefaultChannelPoints
       \<lparr>red := [\<lparr>px = 0, py = 0\<rparr>, \<lparr>px = 255, py = 255\<rparr>, \<lparr>px = 255, py = 0\<rparr>]\<rparr>)"
    by (simp add: updatePoint_def getChannel_def sortPoints_def Let_def mapIndex_def
        clamp_def setChannel_def)
  show ?thesis
    by (simp add: run_def initSession_def currentPoints_def a u updatePoints_def getChannel_def)
qed

text \<open>
  C3 says that the invariant holds after every sequence of calls.  After
  \<^verbatim>\<open>addPoint('red', {x: 300, y: 0})\<close> and \<^verbatim>\<open>updatePoint('red', 2, {x: 300, y: 0})\<close>
  the red channel is \<open>[(0,0), (255,255), (255,0)]\<close>: the last two points share their \<open>x\<close>.
  (While added points have \<open>x\<close> in \<open>[0, 255]\<close> the invariant does hold, see
  \<open>invariant_kept_in_range\<close> at the end.)
\<close>

theorem C3_invariant_broken:
  "getChannel (internalPoints (run (initSession Monotone)
       [AddPoint Red \<lparr>px = 300, py = 0\<rparr>, UpdatePoint Red 2 \<lparr>px = 300, py = 0\<rparr>])) Red =
     [\<lparr>px = 0, py = 0\<rparr>, \<lparr>px = 255, py = 255\<rparr>, \<lparr>px = 255, py = 0\<rparr>]
   \<and> \<bar>px (getChannel (internalPoints (run (initSession Monotone)
       [AddPoint Red \<lparr>px = 300, py = 0\<rparr>, UpdatePoint Red 2 \<lparr>px = 300, py = 0\<rparr>])) Red ! 2)
      - px (getChannel (internalPoints (run (initSession Monotone)
       [AddPoint Red \<lparr>px = 300, py = 0\<rparr>, UpdatePoint Red 2 \<lparr>px = 300, py = 0\<rparr>])) Red ! 1)\<bar>
     < MIN_POINT_DISTANCE"
  unfolding run_C3 by (simp add: MIN_POINT_DISTANCE_def)

lemma run_C3_not_invariant:
  "\<not> pointSetInvariant (getChannel (internalPoints (run (initSession Monotone)
       [AddPoint Red \<lparr>px = 300, py = 0\<rparr>, UpdatePoint Red 2 \<lparr>px = 300, py = 0\<rparr>])) Red)"
  unfolding run_C3
  by (simp add: pointSetInvariant_def MIN_POINT_DISTANCE_def) (rule exI [of _ 1], simp)

section \<open>Applying the tables\<close>

lemma lutGet_of_int:
  "0 \<le> k \<Longrightarrow> k < int (length t) \<Longrightarrow> lutGet t (of_int k) = Some (t ! nat k)"
  by (simp add: lutGet_def)

lemma clamp_of_int: "clamp (of_int r) 0 255 = of_int (min (max r 0) 255)"
  by (simp add: clamp_def min_def max_def)

lemma lutGet_clamp:
  "length t = 256 \<Longrightarrow> lutGet t (clamp (of_int r) 0 255) = Some (t ! nat (min (max r 0) 255))"
  unfolding clamp_of_int by (rule lutGet_of_int) simp_all

lemma throughMaster_Some:
  assumes "length (lutMaster lut) = 256"
  shows "throughMaster lut (Some w) = Some (lutMaster lut ! unat w)"
proof -
  have "uint w < 2 ^ LENGTH(8)" by (rule unsigned_less)
  then have "uint w < int (length (lutMaster lut))" using assms by simp
  then have "lutGet (lutMaster lut) (of_int (uint w)) = Some (lutMaster lut ! nat (uint w))"
    by (intro lutGet_of_int) simp_all
  then show ?thesis by (simp add: throughMaster_def)
qed

lemma throughMaster_eq:
  assumes "length (lutMaster lut) = 256"
  shows "throughMaster lut v = map_option (\<lambda>w. lutMaster lut ! unat w) v"
  using throughMaster_Some [OF assms] by (cases v) (simp_all add: throughMaster_def)

text \<open>
  C4: for tables of 256 entries, each component of \<^verbatim>\<open>applyLUT\<close> is the master table
  read at the value that the channel's own table holds for the clamped input.  For every
  real input this is the first equation, where a lookup with a non-integer number is
  \<^verbatim>\<open>undefined\<close>; for integer inputs both lookups are defined, the second equation.  With
  a red table sending 10 to 20 and a master table sending 20 to 235, the red component of
  \<^verbatim>\<open>applyLUT(10, 0, 0, lut)\<close> is 235.
\<close>

theorem C4_applyLUT_composition:
  assumes "length (lutMaster lut) = 256" and "length (lutRed lut) = 256"
    and "length (lutGreen lut) = 256" and "length (lutBlue lut) = 256"
  shows "applyLUT r g b lut =
           (map_option (\<lambda>w. lutMaster lut ! unat w) (lutGet (lutRed lut) (clamp r 0 255)),
            map_option (\<lambda>w. lutMaster lut ! unat w) (lutGet (lutGreen lut) (clamp g 0 255)),
            map_option (\<lambda>w. lutMaster lut ! unat w) (lutGet (lutBlue lut) (clamp b 0 255)))
         \<and> applyLUT (of_int ri) (of_int gi) (of_int bi) lut =
           (Some (lutMaster lut ! unat (lutRed lut ! nat (min (max ri 0) 255))),
            Some (lutMaster lut ! unat (lutGreen lut ! nat (min (max gi 0) 255))),
            Some (lutMaster lut ! unat (lutBlue lut ! nat (min (max bi 0) 255))))
         \<and> (lutRed lut ! 10 = 20 \<and> lutMaster lut ! 20 = 235
             \<longrightarrow> fst (applyLUT 10 0 0 lut) = Some 235)"
proof -
  have gen: "applyLUT r g b lut =
           (map_option (\<lambda>w. lutMaster lut ! unat w) (lutGet (lutRed lut) (clamp r 0 255)),
            map_option (\<lambda>w. lutMaster lut ! unat w) (lutGet (lutGreen lut) (clamp g 0 255)),
            map_option (\<lambda>w. lutMaster lut ! unat w) (lutGet (lutBlue lut) (clamp b 0 255)))"
    for r g b
    by (simp add: applyLUT_def Let_def throughMaster_eq [OF assms(1)])
  have eq: "applyLUT (of_int ri) (of_int gi) (of_int bi) lut =
           (Some (lutMaster lut ! unat (lutRed lut ! nat (min (max ri 0) 255))),
            Some (lutMaster lut ! unat (lutGreen lut ! nat (min (max gi 0) 255))),
            Some (lutMaster lut ! unat (lutBlue lut ! nat (min (max bi 0) 255))))" for ri gi bi
    unfolding gen using assms(2-4) by (simp add: lutGet_clamp)
  have "fst (applyLUT 10 0 0 lut) = Some 235" if "lutRed lut ! 10 = 20" "lutMaster lut ! 20 = 235"
    using eq [of 10 0 0] that by simp
  with gen eq show ?thesis by blast
qed

theorem C4_applyLUT_composition_witness:
  "length (lutMaster exampleLUT) = 256 \<and> length (lutRed exampleLUT) = 256
   \<and> length (lutGreen exampleLUT) = 256 \<and> length (lutBlue exampleLUT) = 256
   \<and> lutRed exampleLUT ! 10 = 20 \<and> lutMaster exampleLUT ! 20 = 235
   \<and> fst (applyLUT 10 0 0 exampleLUT) = Some 235"
proof -
  have l: "length (lutMaster exampleLUT) = 256" "length (lutRed exampleLUT) = 256"
    "length (lutGreen exampleLUT) = 256" "length (lutBlue exampleLUT) = 256"
    by (simp_all add: exampleLUT_def)
  have r: "lutRed exampleLUT ! 10 = 20"
    by (simp add: exampleLUT_def del: upt_Suc)
  have m: "lutMaster exampleLUT ! 20 = 235"
    by (simp add: exampleLUT_def del: upt_Suc)
  from C4_applyLUT_composition [OF l, of 0 0 0 0 0 0]
  have "lutRed exampleLUT ! 10 = 20 \<and> lutMaster exampleLUT ! 20 = 235
      \<longrightarrow> fst (applyLUT 10 0 0 exampleLUT) = Some 235"
    by (elim conjE)
  with r m have "fst (applyLUT 10 0 0 exampleLUT) = Some 235" by (elim impE) (rule conjI)
  with l r m show ?thesis by simp
qed

section \<open>The segment search\<close>

lemma findSegment_ge: "i \<le> findSegment s qx i"
proof (induction s qx i rule: findSegment.induct)
  case (1 s qx i)
  show ?case
  proof (cases "i < length s - 1 \<and> px (s ! (i + 1)) < qx")
    case True
    with 1 have "i + 1 \<le> findSegment s qx (i + 1)" by simp
    with True show ?thesis by (subst findSegment.simps) simp
  next
    case False
    then show ?thesis by (subst findSegment.simps) auto
  qed
qed

lemma findSegment_le: "i \<le> length s - 1 \<Longrightarrow> findSegment s qx i \<le> length s - 1"
proof (induction s qx i rule: findSegment.induct)
  case (1 s qx i)
  show ?case
  proof (cases "i < length s - 1 \<and> px (s ! (i + 1)) < qx")
    case True
    with 1 have "findSegment s qx (i + 1) \<le> length s - 1" by simp
    with True show ?thesis by (subst findSegment.simps) simp
  next
    case False
    with 1 show ?thesis by (subst findSegment.simps) auto
  qed
qed

lemma findSegment_stop:
  "findSegment s qx i < length s - 1 \<Longrightarrow> qx \<le> px (s ! (findSegment s qx i + 1))"
proof (induction s qx i rule: findSegment.induct)
  case (1 s qx i)
  show ?case
  proof (cases "i < length s - 1 \<and> px (s ! (i + 1)) < qx")
    case True
    then have eq: "findSegment s qx i = findSegment s qx (i + 1)"
      by (subst findSegment.simps) simp
    with 1 True show ?thesis by simp
  next
    case False
    then have eq: "findSegment s qx i = i"
      by (subst findSegment.simps) auto
    with 1 False show ?thesis by auto
  qed
qed

lemma findSegment_passed:
  "i < k \<Longrightarrow> k \<le> findSegment s qx i \<Longrightarrow> px (s ! k) < qx"
proof (induction s qx i rule: findSegment.induct)
  case (1 s qx i)
  show ?case
  proof (cases "i < length s - 1 \<and> px (s ! (i + 1)) < qx")
    case True
    then have eq: "findSegment s qx i = findSegment s qx (i + 1)"
      by (subst findSegment.simps) simp
    show ?thesis
    proof (cases "k = i + 1")
      case True
      with \<open>i < length s - 1 \<and> px (s ! (i + 1)) < qx\<close> show ?thesis by simp
    next
      case False
      with 1 True eq show ?thesis by simp
    qed
  next
    case False
    then have eq: "findSegment s qx i = i"
      by (subst findSegment.simps) auto
    with 1 show ?thesis by simp
  qed
qed

lemma segment_found:
  assumes "2 \<le> length s" and "px (s ! 0) < qx" and "qx < px (s ! (length s - 1))"
  shows "findSegment s qx 0 + 1 < length s"
    and "px (s ! findSegment s qx 0) < qx"
    and "qx \<le> px (s ! (findSegment s qx 0 + 1))"
proof -
  let ?j = "findSegment s qx 0"
  have le: "?j \<le> length s - 1" by (rule findSegment_le) simp
  have ne: "?j \<noteq> length s - 1"
  proof
    assume e: "?j = length s - 1"
    with assms(1) have "0 < length s - 1" "length s - 1 \<le> ?j" by simp_all
    then have "px (s ! (length s - 1)) < qx" by (rule findSegment_passed)
    with assms(3) show False by simp
  qed
  with le have lt: "?j < length s - 1" by simp
  then show "?j + 1 < length s" by simp
  show "px (s ! ?j) < qx"
  proof (cases "?j = 0")
    case True
    with assms(2) show ?thesis by simp
  next
    case False
    then have "0 < ?j" "?j \<le> ?j" by simp_all
    then show ?thesis by (rule findSegment_passed)
  qed
  from lt show "qx \<le> px (s ! (?j + 1))" by (rule findSegment_stop)
qed

lemma findSegment_mono:
  assumes "qx \<le> qx'" and "findSegment s qx' 0 < length s - 1"
  shows "findSegment s qx 0 \<le> findSegment s qx' 0"
proof (rule ccontr)
  assume "\<not> ?thesis"
  then have "0 < findSegment s qx' 0 + 1" "findSegment s qx' 0 + 1 \<le> findSegment s qx 0"
    by simp_all
  then have "px (s ! (findSegment s qx' 0 + 1)) < qx" by (rule findSegment_passed)
  moreover from assms(2) have "qx' \<le> px (s ! (findSegment s qx' 0 + 1))"
    by (rule findSegment_stop)
  ultimately show False using assms(1) by simp
qed

section \<open>Boundaries and control points\<close>

lemma sorted_sortPoints: "sorted (map px (sortPoints ps))"
  by (simp add: sortPoints_def)

lemma sortPoints_Nil_iff: "sortPoints ps = [] \<longleftrightarrow> ps = []"
  using length_sortPoints [of ps] by (metis length_0_conv)

lemma monotoneCubicOnSorted_low:
  "s \<noteq> [] \<Longrightarrow> qx \<le> px (s ! 0) \<Longrightarrow> monotoneCubicOnSorted s qx = py (s ! 0)"
  by (simp add: monotoneCubicOnSorted_def Let_def)

lemma monotoneCubicOnSorted_high:
  "s \<noteq> [] \<Longrightarrow> px (s ! (length s - 1)) \<le> qx \<Longrightarrow> px (s ! 0) < qx \<or> length s = 1
    \<Longrightarrow> monotoneCubicOnSorted s qx = py (s ! (length s - 1))"
  by (auto simp: monotoneCubicOnSorted_def Let_def)

lemma catmullRomOnSorted_low:
  "s \<noteq> [] \<Longrightarrow> qx \<le> px (s ! 0) \<Longrightarrow> catmullRomOnSorted s qx = py (s ! 0)"
  by (simp add: catmullRomOnSorted_def Let_def)

lemma catmullRomOnSorted_high:
  "s \<noteq> [] \<Longrightarrow> px (s ! (length s - 1)) \<le> qx \<Longrightarrow> px (s ! 0) < qx \<or> length s = 1
    \<Longrightarrow> catmullRomOnSorted s qx = py (s ! (length s - 1))"
  by (auto simp: catmullRomOnSorted_def Let_def)

lemma sorted_first_Min:
  assumes "sorted (map px s)" and "s \<noteq> []"
  shows "px (s ! 0) = Min (px ` set s)"
proof (rule sym, rule Min_eqI)
  show "finite (px ` set s)" by simp
  show "px (s ! 0) \<in> px ` set s" using assms(2) by simp
  fix v assume "v \<in> px ` set s"
  then obtain k where k: "k < length s" "v = px (s ! k)"
    by (auto simp: in_set_conv_nth)
  with assms(1) have "map px s ! 0 \<le> map px s ! k"
    by (intro sorted_nth_mono) simp_all
  with k assms(2) show "px (s ! 0) \<le> v" by simp
qed

lemma sorted_last_Max:
  assumes "sorted (map px s)" and "s \<noteq> []"
  shows "px (s ! (length s - 1)) = Max (px ` set s)"
proof (rule sym, rule Max_eqI)
  show "finite (px ` set s)" by simp
  show "px (s ! (length s - 1)) \<in> px ` set s" using assms(2) by simp
  fix v assume "v \<in> px ` set s"
  then obtain k where k: "k < length s" "v = px (s ! k)"
    by (auto simp: in_set_conv_nth)
  with assms(1) have "map px s ! k \<le> map px s ! (length s - 1)"
    by (intro sorted_nth_mono) simp_all
  with k assms(2) show "v \<le> px (s ! (length s - 1))" by simp
qed

text \<open>
  C6: for a non-empty point set, a query at or below the least \<open>x\<close> makes both
  interpolators return the \<open>y\<close> of a point of least \<open>x\<close>, and a query at or above
  the greatest \<open>x\<close> makes both return the \<open>y\<close> of a point of greatest \<open>x\<close>.  The
  last two parts say which point that is when several share the extreme \<open>x\<close>: the first
  sorted point for a query at or below the least \<open>x\<close>, the last sorted point for a
  query above it.
\<close>

theorem C6_boundary_flatness:
  assumes "ps \<noteq> []"
  shows "(qx \<le> Min (px ` set ps) \<longrightarrow>
            (\<exists>p\<in>set ps. px p = Min (px ` set ps)
               \<and> monotoneCubicInterpolation ps qx = py p
               \<and> catmullRomInterpolation ps qx = py p))
       \<and> (Max (px ` set ps) \<le> qx \<longrightarrow>
            (\<exists>p\<in>set ps. px p = Max (px ` set ps)
               \<and> monotoneCubicInterpolation ps qx = py p
               \<and> catmullRomInterpolation ps qx = py p))
       \<and> (qx \<le> Min (px ` set ps) \<longrightarrow>
            monotoneCubicInterpolation ps qx = py (hd (sortPoints ps))
            \<and> catmullRomInterpolation ps qx = py (hd (sortPoints ps)))
       \<and> (Max (px ` set ps) \<le> qx \<and> Min (px ` set ps) < qx \<longrightarrow>
            monotoneCubicInterpolation ps qx = py (last (sortPoints ps))
            \<and> catmullRomInterpolation ps qx = py (last (sortPoints ps)))"
proof -
  let ?s = "sortPoints ps"
  let ?n = "length ?s"
  have ne: "?s \<noteq> []" using assms by (simp add: sortPoints_Nil_iff)
  have lo: "px (?s ! 0) = Min (px ` set ps)"
    using sorted_first_Min [OF sorted_sortPoints ne] by (simp add: set_sortPoints)
  have hi: "px (?s ! (?n - 1)) = Max (px ` set ps)"
    using sorted_last_Max [OF sorted_sortPoints ne] by (simp add: set_sortPoints)
  have first_in: "?s ! 0 \<in> set ps"
    using ne nth_mem [of 0 ?s] by (simp add: set_sortPoints)
  have last_in: "?s ! (?n - 1) \<in> set ps"
    using ne nth_mem [of "?n - 1" ?s] by (simp add: set_sortPoints)
  have hd: "hd ?s = ?s ! 0" using ne by (rule hd_conv_nth)
  have last: "last ?s = ?s ! (?n - 1)" using ne by (rule last_conv_nth)
  have minmax: "Min (px ` set ps) \<le> Max (px ` set ps)"
  proof -
    have "px (?s ! 0) \<le> Max (px ` set ps)"
      using first_in by (intro Max_ge) simp_all
    with lo show ?thesis by simp
  qed
  have C: "monotoneCubicInterpolation ps qx = py (?s ! 0)
      \<and> catmullRomInterpolation ps qx = py (?s ! 0)"
    if "qx \<le> Min (px ` set ps)"
    using that ne lo
    by (simp add: monotoneCubicInterpolation_def catmullRomInterpolation_def
        monotoneCubicOnSorted_low catmullRomOnSorted_low)
  have D: "monotoneCubicInterpolation ps qx = py (?s ! (?n - 1))
      \<and> catmullRomInterpolation ps qx = py (?s ! (?n - 1))"
    if "Max (px ` set ps) \<le> qx" "Min (px ` set ps) < qx"
    using that ne lo hi
    by (simp add: monotoneCubicInterpolation_def catmullRomInterpolation_def
        monotoneCubicOnSorted_high catmullRomOnSorted_high)
  have A: "\<exists>p\<in>set ps. px p = Min (px ` set ps)
               \<and> monotoneCubicInterpolation ps qx = py p
               \<and> catmullRomInterpolation ps qx = py p"
    if "qx \<le> Min (px ` set ps)"
    using C [OF that] lo first_in by (intro bexI [of _ "?s ! 0"]) simp_all
  have B: "\<exists>p\<in>set ps. px p = Max (px ` set ps)
               \<and> monotoneCubicInterpolation ps qx = py p
               \<and> catmullRomInterpolation ps qx = py p"
    if h: "Max (px ` set ps) \<le> qx"
  proof (cases "Min (px ` set ps) < qx")
    case True
    from D [OF h True] hi last_in show ?thesis
      by (intro bexI [of _ "?s ! (?n - 1)"]) simp_all
  next
    case False
    then have le: "qx \<le> Min (px ` set ps)" by simp
    with h lo minmax have "px (?s ! 0) = Max (px ` set ps)" by simp
    with C [OF le] first_in show ?thesis
      by (intro bexI [of _ "?s ! 0"]) simp_all
  qed
  from A B C D show ?thesis unfolding hd last by blast
qed

lemma sorted_distinct_nth_less:
  assumes "sorted (map px s)" and "distinct (map px s)" and "i < j" and "j < length s"
  shows "px (s ! i) < px (s ! j)"
proof -
  from assms have "map px s ! i \<le> map px s ! j"
    by (intro sorted_nth_mono) simp_all
  moreover from assms have "map px s ! i \<noteq> map px s ! j"
    using nth_eq_iff_index_eq [of "map px s" i j] by simp
  ultimately show ?thesis using assms by simp
qed

lemma distinct_sortPoints: "distinct (map px (sortPoints ps)) = distinct (map px ps)"
  by (simp add: distinct_map sortPoints_def)

lemma hermite_one: "hermite 1 y0 y1 dx m0 m1 = y1"
  by (simp add: hermite_def Let_def)

lemma jsRound_isByte: "isByte v \<Longrightarrow> clamp (jsRound v) 0 255 = v"
  by (auto simp: isByte_def jsRound_of_int clamp_def elim!: Ints_cases)

lemma findSegment_control_point:
  assumes "sorted (map px s)" and "distinct (map px s)"
    and "0 < k" and "k < length s - 1"
  shows "findSegment s (px (s ! k)) 0 = k - 1"
proof -
  let ?qx = "px (s ! k)"
  let ?j = "findSegment s ?qx 0"
  have lo: "px (s ! 0) < ?qx"
    using assms by (intro sorted_distinct_nth_less) simp_all
  have hi: "?qx < px (s ! (length s - 1))"
    using assms by (intro sorted_distinct_nth_less) simp_all
  have n: "2 \<le> length s" using assms by simp
  note seg = segment_found [OF n lo hi]
  have "?j < k"
  proof (rule ccontr)
    assume "\<not> ?j < k"
    then have "k = ?j \<or> k < ?j" by auto
    then have "px (s ! k) \<le> px (s ! ?j)"
      using sorted_distinct_nth_less [OF assms(1,2), of k ?j] seg(1) by auto
    with seg(2) show False by simp
  qed
  moreover have "k \<le> ?j + 1"
  proof (rule ccontr)
    assume "\<not> k \<le> ?j + 1"
    then have "?j + 1 < k" by simp
    then have "px (s ! (?j + 1)) < px (s ! k)"
      using assms by (intro sorted_distinct_nth_less) simp_all
    with seg(3) show False by simp
  qed
  ultimately show ?thesis by simp
qed

lemma monotoneCubicOnSorted_interior:
  assumes "2 \<le> length s" and "px (s ! 0) < qx" and "qx < px (s ! (length s - 1))"
    and "findSegment s qx 0 = i" and "px (s ! i) \<noteq> px (s ! Suc i)"
  shows "monotoneCubicOnSorted s qx =
     clamp (jsRound (hermite ((qx - px (s ! i)) / (px (s ! Suc i) - px (s ! i)))
        (py (s ! i)) (py (s ! Suc i)) (px (s ! Suc i) - px (s ! i))
        (fst (limitTangents ((py (s ! Suc i) - py (s ! i)) / (px (s ! Suc i) - px (s ! i)))
               (tangent0 s i) (tangent1 s i)))
        (snd (limitTangents ((py (s ! Suc i) - py (s ! i)) / (px (s ! Suc i) - px (s ! i)))
               (tangent0 s i) (tangent1 s i))))) 0 255"
proof -
  from assms(1) have n: "length s \<noteq> 0" "length s \<noteq> 1" by auto
  from assms(2,3) have b: "\<not> qx \<le> px (s ! 0)" "\<not> px (s ! (length s - 1)) \<le> qx" by simp_all
  from assms(5) have d: "px (s ! Suc i) - px (s ! i) \<noteq> 0" by simp
  show ?thesis
    unfolding monotoneCubicOnSorted_def Let_def assms(4)
    using n b d by (simp add: case_prod_beta)
qed

lemma catmullRomOnSorted_interior:
  assumes "2 \<le> length s" and "px (s ! 0) < qx" and "qx < px (s ! (length s - 1))"
    and "findSegment s qx 0 = i" and "Suc i < length s" and "px (s ! i) \<noteq> px (s ! Suc i)"
  shows "catmullRomOnSorted s qx =
     (let p0 = s ! (i - 1); p1 = s ! i; p2 = s ! Suc i; p3 = s ! min (length s - 1) (i + 2);
          t = (qx - px p1) / (px p2 - px p1)
      in clamp (jsRound (0.5 * (2 * py p1 + (- py p0 + py p2) * t
                       + (2 * py p0 - 5 * py p1 + 4 * py p2 - py p3) * (t * t)
                       + (- py p0 + 3 * py p1 - 3 * py p2 + py p3) * (t * t * t)))) 0 255)"
proof -
  from assms(1) have n: "length s \<noteq> 0" "length s \<noteq> 1" by auto
  from assms(2,3) have b: "\<not> qx \<le> px (s ! 0)" "\<not> px (s ! (length s - 1)) \<le> qx" by simp_all
  from assms(6) have d: "px (s ! Suc i) - px (s ! i) \<noteq> 0" by simp
  have i0: "nat (max 0 (int i - 1)) = i - 1" by simp
  from assms(5) have i1: "min (length s - 1) (i + 1) = Suc i" by simp
  show ?thesis
    unfolding catmullRomOnSorted_def Let_def assms(4) i0 i1
    using n b d by simp
qed

lemma control_point_segment:
  assumes "sorted (map px s)" and "distinct (map px s)" and "Suc j < length s - 1"
  shows "2 \<le> length s" and "px (s ! 0) < px (s ! Suc j)"
    and "px (s ! Suc j) < px (s ! (length s - 1))"
    and "findSegment s (px (s ! Suc j)) 0 = j"
    and "px (s ! j) \<noteq> px (s ! Suc j)"
proof -
  show "2 \<le> length s" using assms(3) by simp
  show "px (s ! 0) < px (s ! Suc j)"
    using assms by (intro sorted_distinct_nth_less) simp_all
  show "px (s ! Suc j) < px (s ! (length s - 1))"
    using assms by (intro sorted_distinct_nth_less) simp_all
  show "findSegment s (px (s ! Suc j)) 0 = j"
    using findSegment_control_point [OF assms(1,2), of "Suc j"] assms(3) by simp
  have "px (s ! j) < px (s ! Suc j)"
    using assms by (intro sorted_distinct_nth_less) simp_all
  then show "px (s ! j) \<noteq> px (s ! Suc j)" by simp
qed

lemma monotoneCubicOnSorted_control_point:
  assumes "sorted (map px s)" and "distinct (map px s)" and "k < length s"
    and "isByte (py (s ! k))"
  shows "monotoneCubicOnSorted s (px (s ! k)) = py (s ! k)"
proof -
  consider "k = 0" | "0 < k" "k = length s - 1" | "0 < k" "k < length s - 1"
    using assms(3) by linarith
  then show ?thesis
  proof cases
    case 1
    with assms(3) show ?thesis by (simp add: monotoneCubicOnSorted_low)
  next
    case 2
    with assms have "px (s ! 0) < px (s ! k)"
      by (intro sorted_distinct_nth_less) simp_all
    with 2 assms(3) have "monotoneCubicOnSorted s (px (s ! (length s - 1))) = py (s ! (length s - 1))"
      by (intro monotoneCubicOnSorted_high) auto
    with 2 show ?thesis by simp
  next
    case 3
    then obtain j where k: "k = Suc j" by (cases k) simp_all
    with 3 have "Suc j < length s - 1" by simp
    note cp = control_point_segment [OF assms(1,2) this]
    show ?thesis
      unfolding k monotoneCubicOnSorted_interior [OF cp]
      using cp(5) assms(4) by (simp add: hermite_one jsRound_isByte k)
  qed
qed

lemma catmullRomOnSorted_control_point:
  assumes "sorted (map px s)" and "distinct (map px s)" and "k < length s"
    and "isByte (py (s ! k))"
  shows "catmullRomOnSorted s (px (s ! k)) = py (s ! k)"
proof -
  consider "k = 0" | "0 < k" "k = length s - 1" | "0 < k" "k < length s - 1"
    using assms(3) by linarith
  then show ?thesis
  proof cases
    case 1
    with assms(3) show ?thesis by (simp add: catmullRomOnSorted_low)
  next
    case 2
    with assms have "px (s ! 0) < px (s ! k)"
      by (intro sorted_distinct_nth_less) simp_all
    with 2 assms(3) have "catmullRomOnSorted s (px (s ! (length s - 1))) = py (s ! (length s - 1))"
      by (intro catmullRomOnSorted_high) auto
    with 2 show ?thesis by simp
  next
    case 3
    then obtain j where k: "k = Suc j" by (cases k) simp_all
    with 3 have j: "Suc j < length s - 1" by simp
    note cp = control_point_segment [OF assms(1,2) j]
    from j have "Suc j < length s" by simp
    note eq = catmullRomOnSorted_interior [OF cp(1-4) this cp(5)]
    from cp(5) have t: "(px (s ! Suc j) - px (s ! j)) / (px (s ! Suc j) - px (s ! j)) = 1"
      by simp
    have "catmullRomOnSorted s (px (s ! Suc j)) = clamp (jsRound (py (s ! Suc j))) 0 255"
      unfolding eq Let_def t by (simp add: algebra_simps)
    with assms(4) show ?thesis by (simp add: jsRound_isByte k)
  qed
qed

lemma red_afterFirstAdd: "getChannel (currentPoints afterFirstAdd) Red = scenarioPoints"
  by (simp add: currentPoints_afterFirstAdd scenarioPoints_def)

lemma scenarioPoints_ok:
  "distinct (map px scenarioPoints)" "integerCoordinates scenarioPoints"
  "\<lparr>px = 128, py = 200\<rparr> \<in> set scenarioPoints"
  by (simp_all add: scenarioPoints_def integerCoordinates_def isByte_def)

lemma toUint8_200: "unat (toUint8 200) = 200"
  using toUint8_of_nat [of 200] by simp

text \<open>
  C7: for points with pairwise distinct \<open>x\<close> and integer coordinates in \<open>[0, 255]\<close>,
  each interpolator at the \<open>x\<close> of a control point returns the \<open>y\<close> of that point.
  In the scenario the red channel is \<open>[(0,0), (128,200), (255,255)]\<close> and its table
  holds 200 at index 128, with either interpolation.
\<close>

theorem C7_control_points:
  "(distinct (map px ps) \<and> integerCoordinates ps \<and> p \<in> set ps \<longrightarrow>
       monotoneCubicInterpolation ps (px p) = py p
       \<and> catmullRomInterpolation ps (px p) = py p)
   \<and> getChannel (currentPoints afterFirstAdd) Red = scenarioPoints
   \<and> unat (generateChannelLUT (getChannel (currentPoints afterFirstAdd) Red) kind ! 128) = 200"
proof -
  have gen: "monotoneCubicInterpolation ps (px p) = py p
       \<and> catmullRomInterpolation ps (px p) = py p"
    if a: "distinct (map px ps)" "integerCoordinates ps" "p \<in> set ps" for ps p
  proof -
    let ?s = "sortPoints ps"
    from a(3) obtain k where k: "k < length ?s" "?s ! k = p"
      by (metis set_sortPoints in_set_conv_nth)
    from a(2,3) have b: "isByte (py (?s ! k))"
      by (simp add: integerCoordinates_def k)
    have d: "distinct (map px ?s)" using a(1) by (simp add: distinct_sortPoints)
    from monotoneCubicOnSorted_control_point [OF sorted_sortPoints d k(1) b]
      catmullRomOnSorted_control_point [OF sorted_sortPoints d k(1) b]
    show ?thesis
      by (simp add: monotoneCubicInterpolation_def catmullRomInterpolation_def k)
  qed
  from gen [OF scenarioPoints_ok]
  have "interpolate kind scenarioPoints 128 = 200"
    by (cases kind) (simp_all add: interpolate_def)
  then have "generateChannelLUT scenarioPoints kind ! 128 = toUint8 200"
    by (simp add: generateChannelLUT_def del: upt_Suc)
  with gen show ?thesis
    by (simp add: red_afterFirstAdd toUint8_200)
qed

theorem C7_control_points_witness:
  "distinct (map px scenarioPoints) \<and> integerCoordinates scenarioPoints
   \<and> \<lparr>px = 128, py = 200\<rparr> \<in> set scenarioPoints
   \<and> monotoneCubicInterpolation scenarioPoints 128 = 200
   \<and> catmullRomInterpolation scenarioPoints 128 = 200"
  using C7_control_points [of scenarioPoints "\<lparr>px = 128, py = 200\<rparr>"] scenarioPoints_ok
  by simp

theorem C6_boundary_flatness_witness:
  "scenarioPoints \<noteq> []
   \<and> - 3 \<le> Min (px ` set scenarioPoints) \<and> Max (px ` set scenarioPoints) \<le> 300
   \<and> Min (px ` set scenarioPoints) < 300
   \<and> monotoneCubicInterpolation scenarioPoints (- 3) = 0
   \<and> catmullRomInterpolation scenarioPoints (- 3) = 0
   \<and> monotoneCubicInterpolation scenarioPoints 300 = 255
   \<and> catmullRomInterpolation scenarioPoints 300 = 255"
proof -
  have ne: "scenarioPoints \<noteq> []" by (simp add: scenarioPoints_def)
  have mn: "Min (px ` set scenarioPoints) = 0" and mx: "Max (px ` set scenarioPoints) = 255"
    by (simp_all add: scenarioPoints_def)
  from C6_boundary_flatness [OF ne, of "- 3"] mn
  have lo: "monotoneCubicInterpolation scenarioPoints (- 3) = 0
      \<and> catmullRomInterpolation scenarioPoints (- 3) = 0"
    by (auto simp: scenarioPoints_def)
  from C6_boundary_flatness [OF ne, of 300] mx
  have hi: "monotoneCubicInterpolation scenarioPoints 300 = 255
      \<and> catmullRomInterpolation scenarioPoints 300 = 255"
    by (auto simp: scenarioPoints_def)
  from ne mn mx lo hi show ?thesis by simp
qed

section \<open>Independence of the order of the input\<close>

lemma filter_same_key:
  "distinct (map f xs) \<Longrightarrow> k \<in> set xs \<Longrightarrow> filter (\<lambda>x. f k = f x) xs = [k]"
proof (induction xs)
  case Nil
  then show ?case by simp
next
  case (Cons a xs)
  show ?case
  proof (cases "k = a")
    case True
    from Cons.prems(1) have "filter (\<lambda>x. f a = f x) xs = []"
      by (auto simp: filter_empty_conv)
    with True show ?thesis by simp
  next
    case False
    with Cons.prems have kin: "k \<in> set xs" by simp
    from Cons.prems(1) have "f a \<notin> f ` set xs" by simp
    with kin have "f k \<noteq> f a" by (metis imageI)
    note kin this
    with Cons show ?thesis by simp
  qed
qed

lemma sortPoints_permutation:
  assumes "mset ps = mset qs" and "distinct (map px ps)"
  shows "sortPoints ps = sortPoints qs"
proof -
  have dq: "distinct (map px qs)"
  proof -
    from assms(1) have "mset (map px ps) = mset (map px qs)" by (metis mset_map)
    with assms(2) show ?thesis by (metis mset_eq_imp_distinct_iff)
  qed
  have sets: "set ps = set qs" using assms(1) by (rule mset_eq_setD)
  have "sort_key px qs = sort_key px ps"
  proof (rule properties_for_sort_key)
    show "mset (sort_key px ps) = mset qs" using assms(1) by simp
    show "sorted (map px (sort_key px ps))" by simp
    fix k assume "k \<in> set (sort_key px ps)"
    then have k: "k \<in> set ps" by simp
    have "filter (\<lambda>x. px k = px x) (sort_key px ps) = [k]"
      using assms(2) k by (intro filter_same_key) (simp_all add: distinct_map)
    moreover have "filter (\<lambda>x. px k = px x) qs = [k]"
      using dq k sets by (intro filter_same_key) simp_all
    ultimately show "filter (\<lambda>x. px k = px x) (sort_key px ps) = filter (\<lambda>x. px k = px x) qs"
      by simp
  qed
  then show ?thesis by (simp add: sortPoints_def)
qed

lemma sortPointsS_eq:
  "sortPointsS h a = (length h, h @ [sortPoints (h ! a)])"
  by (simp add: sortPointsS_def Let_def sortPoints_def)

text \<open>
  C10: two lists that are permutations of each other, with pairwise distinct \<open>x\<close>, give
  the same result in each interpolator at every query; and an interpolator leaves every
  array of the store, its argument among them, as it was.
\<close>

theorem C10_order_independent:
  "(mset ps = mset qs \<and> distinct (map px ps) \<longrightarrow>
      monotoneCubicInterpolation ps qx = monotoneCubicInterpolation qs qx
      \<and> catmullRomInterpolation ps qx = catmullRomInterpolation qs qx)
   \<and> (a < length h \<longrightarrow>
      fst (monotoneCubicInterpolationS h a qx) = monotoneCubicInterpolation (h ! a) qx
      \<and> fst (catmullRomInterpolationS h a qx) = catmullRomInterpolation (h ! a) qx
      \<and> (\<forall>b<length h. snd (monotoneCubicInterpolationS h a qx) ! b = h ! b
                      \<and> snd (catmullRomInterpolationS h a qx) ! b = h ! b))"
proof -
  have "sortPoints ps = sortPoints qs" if "mset ps = mset qs" "distinct (map px ps)"
    using that by (rule sortPoints_permutation)
  then show ?thesis
    by (simp add: monotoneCubicInterpolation_def catmullRomInterpolation_def
        monotoneCubicInterpolationS_def catmullRomInterpolationS_def sortPointsS_eq
        nth_append)
qed

theorem C10_order_independent_witness:
  "mset [\<lparr>px = 255, py = 255\<rparr>, \<lparr>px = 0, py = 0\<rparr>, \<lparr>px = 128, py = 200\<rparr>] = mset scenarioPoints
   \<and> distinct (map px [\<lparr>px = 255, py = 255\<rparr>, \<lparr>px = 0, py = 0\<rparr>, \<lparr>px = 128, py = 200\<rparr>])
   \<and> catmullRomInterpolation [\<lparr>px = 255, py = 255\<rparr>, \<lparr>px = 0, py = 0\<rparr>, \<lparr>px = 128, py = 200\<rparr>] 64
       = catmullRomInterpolation scenarioPoints 64
   \<and> (0::nat) < length [[\<lparr>px = 255, py = 255\<rparr>, \<lparr>px = 0, py = 0\<rparr>]]
   \<and> snd (monotoneCubicInterpolationS [[\<lparr>px = 255, py = 255\<rparr>, \<lparr>px = 0, py = 0\<rparr>]] 0 64) ! 0
       = [\<lparr>px = 255, py = 255\<rparr>, \<lparr>px = 0, py = 0\<rparr>]"
proof -
  have m: "mset [\<lparr>px = 255, py = 255\<rparr>, \<lparr>px = 0, py = 0\<rparr>, \<lparr>px = 128, py = 200\<rparr>] = mset scenarioPoints"
    by (simp add: scenarioPoints_def)
  have d: "distinct (map px [\<lparr>px = 255, py = 255\<rparr>, \<lparr>px = 0, py = 0\<rparr>, \<lparr>px = 128, py = 200\<rparr>])"
    by simp
  have l: "(0::nat) < length [[\<lparr>px = 255, py = 255\<rparr>, \<lparr>px = 0, py = 0\<rparr>]]" by simp
  from C10_order_independent [of "[\<lparr>px = 255, py = 255\<rparr>, \<lparr>px = 0, py = 0\<rparr>, \<lparr>px = 128, py = 200\<rparr>]"
      scenarioPoints 64 0 "[[\<lparr>px = 255, py = 255\<rparr>, \<lparr>px = 0, py = 0\<rparr>]]"] m d l
  show ?thesis by simp
qed

section \<open>Point sets that stay inside the range\<close>

text \<open>
  While every added point has its \<open>x\<close> in \<open>[0, 255]\<close>, the three operations keep a
  channel anchored, hence sorted, of length at least two and with adjacent points at least
  \<open>MIN_POINT_DISTANCE\<close> apart.  \<^verbatim>\<open>updatePoint\<close> clamps \<open>y\<close> into \<open>[0, 255]\<close>.
\<close>

lemma transp_apart: "transp apart"
  by (auto simp: transp_def apart_def MIN_POINT_DISTANCE_def)

lemma apart_le: "apart a b \<Longrightarrow> a \<le> b"
  by (simp add: apart_def MIN_POINT_DISTANCE_def)

lemma apart_less: "apart a b \<Longrightarrow> a < b"
  by (simp add: apart_def MIN_POINT_DISTANCE_def)

lemma sorted_wrt_apart_sorted: "sorted_wrt apart xs \<Longrightarrow> sorted xs"
  by (rule sorted_wrt_mono_rel [of xs apart]) (auto dest: apart_le)

lemma sorted_wrt_apart_distinct: "sorted_wrt apart xs \<Longrightarrow> distinct xs"
  by (induction xs) (auto dest: apart_less)

lemma anchored_invariant:
  assumes "anchored ps"
  shows "pointSetInvariant ps"
proof -
  from assms have sw: "sorted_wrt apart (map px ps)" and n: "2 \<le> length ps"
    by (simp_all add: anchored_def)
  have "MIN_POINT_DISTANCE \<le> \<bar>px (ps ! (i + 1)) - px (ps ! i)\<bar>" if "i < length ps - 1" for i
  proof -
    from that have "i < i + 1" "i + 1 < length (map px ps)" by simp_all
    with sw have "apart (map px ps ! i) (map px ps ! (i + 1))"
      by (rule sorted_wrt_nth_less)
    with that show ?thesis by (simp add: apart_def)
  qed
  with sw n show ?thesis
    by (simp add: pointSetInvariant_def sorted_wrt_apart_sorted)
qed

lemma anchored_sortPoints: "anchored ps \<Longrightarrow> sortPoints ps = ps"
  by (simp add: anchored_def sortPoints_def sort_key_id_if_sorted sorted_wrt_apart_sorted)

lemma anchored_default: "anchored getDefaultPoints"
  by (simp add: anchored_def getDefaultPoints_def apart_def MIN_POINT_DISTANCE_def)

lemma map_insort_key: "map f (insort_key f x xs) = insort (f x) (map f xs)"
  by (induction xs) simp_all

lemma sorted_wrt_apart_insort:
  assumes "sorted_wrt apart xs" and "\<forall>b\<in>set xs. MIN_POINT_DISTANCE \<le> \<bar>b - a\<bar>"
  shows "sorted_wrt apart (insort a xs)"
  using assms
proof (induction xs)
  case Nil
  then show ?case by simp
next
  case (Cons b xs)
  show ?case
  proof (cases "a \<le> b")
    case True
    with Cons.prems(2) have ab: "apart a b" by (simp add: apart_def)
    have "apart a c" if "c \<in> set xs" for c
    proof -
      from Cons.prems(1) that have "apart b c" by simp
      with ab show ?thesis using transp_apart by (meson transpD)
    qed
    with True ab Cons.prems(1) show ?thesis by simp
  next
    case False
    with Cons.prems(2) have ba: "apart b a" by (simp add: apart_def)
    from Cons have "sorted_wrt apart (insort a xs)" by simp
    with False ba Cons.prems(1) show ?thesis by (auto simp: set_insort_key)
  qed
qed

lemma insort_first: "xs \<noteq> [] \<Longrightarrow> xs ! 0 < a \<Longrightarrow> insort a xs ! 0 = xs ! 0"
  by (cases xs) auto

lemma insort_last: "xs \<noteq> [] \<Longrightarrow> a \<le> last xs \<Longrightarrow> last (insort a xs) = last xs"
  by (induction xs) auto

lemma sortPoints_snoc:
  assumes "sorted (map px ps)" and "distinct (map px ps)" and "px p \<notin> px ` set ps"
  shows "sortPoints (ps @ [p]) = insort_key px p ps"
proof -
  have "mset (ps @ [p]) = mset (insort_key px p ps)" by simp
  moreover have "distinct (map px (ps @ [p]))" using assms(2,3) by simp
  ultimately have "sortPoints (ps @ [p]) = sortPoints (insort_key px p ps)"
    by (rule sortPoints_permutation)
  also have "\<dots> = insort_key px p ps"
    using assms(1) by (simp add: sortPoints_def sort_key_id_if_sorted sorted_insort_key)
  finally show ?thesis .
qed

lemma anchored_add:
  assumes "anchored ps" and "0 \<le> px p" and "px p \<le> 255" and "\<not> tooClose ps p"
  shows "anchored (sortPoints (ps @ [p]))"
proof -
  let ?xs = "map px ps"
  from assms(1) have sw: "sorted_wrt apart ?xs" and n: "2 \<le> length ps"
    and first: "px (ps ! 0) = 0" and last: "px (ps ! (length ps - 1)) = 255"
    by (simp_all add: anchored_def)
  from assms(4) have far: "\<forall>b\<in>set ?xs. MIN_POINT_DISTANCE \<le> \<bar>b - px p\<bar>"
    by (auto simp: tooClose_iff not_less)
  from n have ne: "?xs \<noteq> []" "ps \<noteq> []" by auto
  have notin: "px p \<notin> px ` set ps"
  proof
    assume "px p \<in> px ` set ps"
    with far have "MIN_POINT_DISTANCE \<le> \<bar>px p - px p\<bar>" by auto
    then show False by (simp add: MIN_POINT_DISTANCE_def)
  qed
  have eq: "sortPoints (ps @ [p]) = insort_key px p ps"
    using sorted_wrt_apart_sorted [OF sw] sorted_wrt_apart_distinct [OF sw] notin
    by (rule sortPoints_snoc)
  have m: "map px (insort_key px p ps) = insort (px p) ?xs" by (rule map_insort_key)
  have s': "sorted_wrt apart (insort (px p) ?xs)"
    using sw far by (rule sorted_wrt_apart_insort)
  have "?xs ! 0 \<in> set ?xs" using ne by simp
  with far first ne have "MIN_POINT_DISTANCE \<le> \<bar>0 - px p\<bar>" by (metis nth_map length_greater_0_conv)
  with assms(2) have "?xs ! 0 < px p" using first ne by (simp add: MIN_POINT_DISTANCE_def)
  with ne have f': "insort (px p) ?xs ! 0 = 0" using first by (simp add: insort_first)
  have lx: "last ?xs = 255" using ne last by (simp add: last_conv_nth)
  with assms(3) ne have "last (insort (px p) ?xs) = 255" by (simp add: insort_last)
  then have l': "insort (px p) ?xs ! (length ps) = 255"
    by (simp add: last_conv_nth)
  have len: "length (insort_key px p ps) = Suc (length ps)" by simp
  have "0 < length (insort_key px p ps)" by simp
  then have nth0: "px (insort_key px p ps ! 0) = map px (insort_key px p ps) ! 0"
    by (simp only: nth_map)
  have nthl: "px (insort_key px p ps ! length ps) = map px (insort_key px p ps) ! length ps"
    by (simp only: nth_map len lessI)
  show ?thesis
    unfolding eq anchored_def m
    using s' n f' l' nth0 nthl by (simp add: m)
qed

lemma anchored_remove:
  assumes "anchored ps" and "0 < k" and "k < length ps - 1"
  shows "anchored (take k ps @ drop (Suc k) ps)"
proof -
  let ?xs = "map px ps"
  let ?r = "take k ps @ drop (Suc k) ps"
  from assms(1) have sw: "sorted_wrt apart ?xs" and n: "2 \<le> length ps"
    and first: "px (ps ! 0) = 0" and last: "px (ps ! (length ps - 1)) = 255"
    by (simp_all add: anchored_def)
  from sw have "sorted_wrt apart (take k ?xs @ drop k ?xs)" by simp
  then have cross: "\<forall>a\<in>set (take k ?xs). \<forall>b\<in>set (drop k ?xs). apart a b"
    unfolding sorted_wrt_append by blast
  have "set (drop (Suc k) ?xs) \<subseteq> set (drop k ?xs)"
    by (rule set_drop_subset_set_drop) simp
  with cross have cross': "\<forall>a\<in>set (take k ?xs). \<forall>b\<in>set (drop (Suc k) ?xs). apart a b"
    by blast
  have "sorted_wrt apart (take k ?xs)" "sorted_wrt apart (drop (Suc k) ?xs)"
    using sw by simp_all
  with cross' have "sorted_wrt apart (take k ?xs @ drop (Suc k) ?xs)"
    unfolding sorted_wrt_append by blast
  then have s': "sorted_wrt apart (map px ?r)"
    by (simp only: map_append take_map drop_map)
  have len: "length ?r = length ps - 1" using assms(3) by simp
  have f': "?r ! 0 = ps ! 0" using assms(2,3) by (simp add: nth_append)
  have l': "?r ! (length ps - 2) = ps ! (length ps - 1)"
  proof -
    from assms(3) have "\<not> length ps - 2 < min (length ps) k" by simp
    moreover from assms(3) have "Suc k + (length ps - 2 - k) = length ps - 1" by simp
    ultimately show ?thesis using assms(3) by (simp add: nth_append min_def)
  qed
  from assms(2,3) have "2 \<le> length ps - 1" by simp
  moreover have "length ps - 1 - 1 = length ps - 2" by simp
  ultimately show ?thesis
    unfolding anchored_def len using s' f' l' first last by simp
qed

lemma mapIndex_enumerate:
  "map (\<lambda>(i, p). if int i = index then q else p) (enumerate k xs) =
     (if int k \<le> index \<and> index < int k + int (length xs)
      then xs[nat index - k := q] else xs)"
proof (induction xs arbitrary: k)
  case Nil
  then show ?case by simp
next
  case (Cons a xs)
  show ?case
  proof (cases "int k = index")
    case True
    then show ?thesis using Cons [of "Suc k"] by auto
  next
    case False
    show ?thesis
    proof (cases "int k \<le> index \<and> index < int k + int (length (a # xs))")
      case True
      with False have "nat index - k = Suc (nat index - Suc k)"
        by linarith
      with True False show ?thesis using Cons [of "Suc k"] by auto
    next
      case False
      then show ?thesis using Cons [of "Suc k"] by auto
    qed
  qed
qed

lemma mapIndex_eq:
  "mapIndex ps index q =
     (if 0 \<le> index \<and> index < int (length ps) then ps[nat index := q] else ps)"
  using mapIndex_enumerate [of index q 0 ps] by (simp add: mapIndex_def)

lemma clamp_bounds: "lo \<le> hi \<Longrightarrow> lo \<le> clamp v lo hi \<and> clamp v lo hi \<le> hi"
  by (simp add: clamp_def)

lemma anchored_update_x:
  assumes "anchored ps" and "k < length ps" and "px q = px (ps ! k)"
  shows "anchored (ps[k := q])"
proof -
  have "map px (ps[k := q]) = map px ps"
    using assms(2,3) by (simp add: map_update list_update_same_conv)
  moreover have "px (ps[k := q] ! 0) = px (ps ! 0)"
    using assms(2,3) by (cases "k = 0") simp_all
  moreover have "px (ps[k := q] ! (length ps - 1)) = px (ps ! (length ps - 1))"
    using assms(2,3) by (cases "k = length ps - 1") simp_all
  ultimately show ?thesis using assms(1) by (simp add: anchored_def)
qed

lemma anchored_update_interior:
  assumes "anchored ps" and "0 < k" and "k < length ps - 1"
    and "px q = clamp v (px (ps ! (k - 1)) + MIN_POINT_DISTANCE)
                       (px (ps ! (k + 1)) - MIN_POINT_DISTANCE)"
  shows "anchored (ps[k := q])"
proof -
  let ?xs = "map px ps"
  from assms(1) have sw: "sorted_wrt apart ?xs" and n: "2 \<le> length ps"
    and first: "px (ps ! 0) = 0" and last: "px (ps ! (length ps - 1)) = 255"
    by (simp_all add: anchored_def)
  have adj: "apart (?xs ! i) (?xs ! Suc i)" if "Suc i < length ps" for i
  proof -
    from that have "i < Suc i" "Suc i < length ?xs" by simp_all
    with sw show ?thesis by (rule sorted_wrt_nth_less)
  qed
  from assms(2,3) have "Suc (k - 1) < length ps" "Suc k < length ps" "Suc (k - 1) = k"
    by simp_all
  with adj [of "k - 1"] adj [of k]
  have "apart (px (ps ! (k - 1))) (px (ps ! k))" "apart (px (ps ! k)) (px (ps ! Suc k))"
    by simp_all
  then have "px (ps ! (k - 1)) + MIN_POINT_DISTANCE \<le> px (ps ! (k + 1)) - MIN_POINT_DISTANCE"
    by (simp add: apart_def)
  from clamp_bounds [OF this, of v] assms(4)
  have lo: "apart (px (ps ! (k - 1))) (px q)" and hi: "apart (px q) (px (ps ! (k + 1)))"
    by (simp_all add: apart_def)
  have "apart (map px (ps[k := q]) ! i) (map px (ps[k := q]) ! Suc i)"
    if "Suc i < length (map px (ps[k := q]))" for i
  proof -
    from that have i: "Suc i < length ps" by simp
    consider "i = k" | "Suc i = k" | "i \<noteq> k" "Suc i \<noteq> k" by blast
    then show ?thesis
    proof cases
      case 1
      with i hi show ?thesis by simp
    next
      case 2
      with i lo show ?thesis by auto
    next
      case 3
      with i adj [OF i] show ?thesis by simp
    qed
  qed
  then have "sorted_wrt apart (map px (ps[k := q]))"
    by (simp only: sorted_wrt_iff_nth_Suc_transp [OF transp_apart]) blast
  with n first last assms(2,3) show ?thesis by (simp add: anchored_def)
qed

lemma allAnchored_setChannel:
  "allAnchored points \<Longrightarrow> anchored v \<Longrightarrow> allAnchored (setChannel points channel v)"
  unfolding allAnchored_def
  by (metis getChannel_setChannel getChannel_setChannel_other)

lemma addPoint_anchored:
  assumes "allAnchored points" and "0 \<le> px point" and "px point \<le> 255"
    and "addPoint points channel point = Some newPoints"
  shows "allAnchored newPoints"
proof -
  let ?ps = "getChannel points channel"
  from assms(1) have a: "anchored ?ps" by (simp add: allAnchored_def)
  from assms(4) have far: "\<not> tooClose ?ps point"
    and eq: "newPoints = setChannel points channel (sortPoints (?ps @ [point]))"
    by (auto simp: addPoint_def Let_def anchored_sortPoints [OF a] split: if_splits)
  from a assms(2,3) far have "anchored (sortPoints (?ps @ [point]))" by (rule anchored_add)
  with assms(1) show ?thesis unfolding eq by (rule allAnchored_setChannel)
qed

lemma removePoint_anchored:
  assumes "allAnchored points" and "removePoint points channel index = Some newPoints"
  shows "allAnchored newPoints"
proof -
  let ?ps = "getChannel points channel"
  from assms(1) have a: "anchored ?ps" by (simp add: allAnchored_def)
  from assms(2) have g: "2 < length ?ps" "index \<noteq> 0" "index \<noteq> int (length ?ps) - 1"
    and eq: "newPoints = setChannel points channel (filterIndex ?ps index)"
    by (auto simp: removePoint_def Let_def anchored_sortPoints [OF a] split: if_splits)
  have "anchored (filterIndex ?ps index)"
  proof (cases "0 \<le> index \<and> index < int (length ?ps)")
    case True
    with g have "0 < nat index" "nat index < length ?ps - 1" by linarith+
    with a have "anchored (take (nat index) ?ps @ drop (Suc (nat index)) ?ps)"
      by (rule anchored_remove)
    with True show ?thesis by (simp add: filterIndex_eq)
  next
    case False
    with a show ?thesis by (auto simp: filterIndex_eq)
  qed
  with assms(1) show ?thesis unfolding eq by (rule allAnchored_setChannel)
qed

lemma updatePoint_first:
  "updatePoint points channel 0 newPoint =
     Inr (setChannel points channel
       (mapIndex (sortPoints (getChannel points channel)) 0
          \<lparr>px = 0, py = clamp (py newPoint) 0 255\<rparr>))"
  by (simp add: updatePoint_def Let_def)

lemma updatePoint_last:
  assumes "index \<noteq> 0" and "index = int (length (getChannel points channel)) - 1"
  shows "updatePoint points channel index newPoint =
     Inr (setChannel points channel
       (mapIndex (sortPoints (getChannel points channel)) index
          \<lparr>px = 255, py = clamp (py newPoint) 0 255\<rparr>))"
  using assms by (simp add: updatePoint_def Let_def length_sortPoints)

lemma updatePoint_interior:
  assumes "1 \<le> index" and "index + 1 < int (length (getChannel points channel))"
  shows "updatePoint points channel index newPoint =
     Inr (setChannel points channel
       (mapIndex (sortPoints (getChannel points channel)) index
          \<lparr>px = clamp (px newPoint)
                  (px (sortPoints (getChannel points channel) ! (nat index - 1))
                     + MIN_POINT_DISTANCE)
                  (px (sortPoints (getChannel points channel) ! (nat index + 1))
                     - MIN_POINT_DISTANCE),
           py = clamp (py newPoint) 0 255\<rparr>))"
proof -
  from assms have i: "nat (index - 1) = nat index - 1" "nat (index + 1) = nat index + 1"
    by linarith+
  from assms have g: "arrayGet (sortPoints (getChannel points channel)) (index - 1)
      = Some (sortPoints (getChannel points channel) ! (nat index - 1))"
    "arrayGet (sortPoints (getChannel points channel)) (index + 1)
      = Some (sortPoints (getChannel points channel) ! (nat index + 1))"
    by (simp_all add: arrayGet_def length_sortPoints i)
  from assms have "index \<noteq> 0" "index \<noteq> int (length (sortPoints (getChannel points channel))) - 1"
    by (simp_all add: length_sortPoints)
  then show ?thesis
    unfolding updatePoint_def Let_def g by simp
qed

lemma updatePoint_throws:
  assumes "index \<noteq> 0" and "index \<noteq> int (length (getChannel points channel)) - 1"
    and "index < 1 \<or> int (length (getChannel points channel)) \<le> index + 1"
  shows "updatePoint points channel index newPoint = Inl TypeError"
proof -
  from assms(3) have "arrayGet (sortPoints (getChannel points channel)) (index - 1) = None
      \<or> arrayGet (sortPoints (getChannel points channel)) (index + 1) = None"
    by (auto simp: arrayGet_def length_sortPoints)
  moreover from assms have "index \<noteq> 0"
    "index \<noteq> int (length (sortPoints (getChannel points channel))) - 1"
    by (simp_all add: length_sortPoints)
  ultimately show ?thesis
    unfolding updatePoint_def Let_def by (auto split: option.splits)
qed

lemma updatePoint_anchored:
  assumes "allAnchored points" and "updatePoint points channel index newPoint = Inr newPoints"
  shows "allAnchored newPoints"
proof -
  let ?ps = "getChannel points channel"
  let ?n = "int (length ?ps)"
  let ?y = "clamp (py newPoint) 0 255"
  from assms(1) have a: "anchored ?ps" by (simp add: allAnchored_def)
  then have n: "2 \<le> length ?ps" and x0: "px (?ps ! 0) = 0"
    and x1: "px (?ps ! (length ?ps - 1)) = 255"
    by (simp_all add: anchored_def)
  note srt = anchored_sortPoints [OF a]
  consider (isFirst) "index = 0" | (isLast) "index \<noteq> 0" "index = ?n - 1"
    | (interior) "1 \<le> index" "index + 1 < ?n"
    | (outside) "index \<noteq> 0" "index \<noteq> ?n - 1" "index < 1 \<or> ?n \<le> index + 1"
    by linarith
  then have "\<exists>v. anchored v \<and> newPoints = setChannel points channel v"
  proof cases
    case isFirst
    from n have len: "0 < length ?ps" by linarith
    from assms(2) have eq: "newPoints = setChannel points channel (?ps[0 := \<lparr>px = 0, py = ?y\<rparr>])"
      unfolding isFirst updatePoint_first srt using len by (simp add: mapIndex_eq)
    have "anchored (?ps[0 := \<lparr>px = 0, py = ?y\<rparr>])"
      using a len by (rule anchored_update_x) (simp add: x0)
    with eq show ?thesis by blast
  next
    case isLast
    with n have k: "nat index = length ?ps - 1" and r: "0 \<le> index" "index < ?n" by linarith+
    from n have len: "length ?ps - 1 < length ?ps" by linarith
    from assms(2) have eq: "newPoints = setChannel points channel
        (?ps[length ?ps - 1 := \<lparr>px = 255, py = ?y\<rparr>])"
      unfolding updatePoint_last [OF isLast] srt using r by (simp add: mapIndex_eq k)
    have "anchored (?ps[length ?ps - 1 := \<lparr>px = 255, py = ?y\<rparr>])"
      using a len by (rule anchored_update_x) (use x1 in simp)
    with eq show ?thesis by blast
  next
    case interior
    then have k: "0 < nat index" "nat index < length ?ps - 1" and r: "0 \<le> index" "index < ?n"
      by linarith+
    let ?x = "clamp (px newPoint) (px (?ps ! (nat index - 1)) + MIN_POINT_DISTANCE)
                (px (?ps ! (nat index + 1)) - MIN_POINT_DISTANCE)"
    from assms(2) have eq: "newPoints = setChannel points channel
        (?ps[nat index := \<lparr>px = ?x, py = ?y\<rparr>])"
      unfolding updatePoint_interior [OF interior] srt using r by (simp add: mapIndex_eq)
    have "anchored (?ps[nat index := \<lparr>px = ?x, py = ?y\<rparr>])"
      using a k by (rule anchored_update_interior) simp
    with eq show ?thesis by blast
  next
    case outside
    from assms(2) show ?thesis unfolding updatePoint_throws [OF outside] by simp
  qed
  then obtain v where "anchored v" "newPoints = setChannel points channel v" by blast
  with assms(1) show ?thesis by (simp add: allAnchored_setChannel)
qed

lemma step_anchored:
  assumes "controlledPoints s = None" and "allAnchored (internalPoints s)" and "inRangeOp op"
  shows "controlledPoints (step s op) = None \<and> allAnchored (internalPoints (step s op))"
proof (cases op)
  case (AddPoint channel point)
  with assms(3) have r: "0 \<le> px point" "px point \<le> 255" by (simp_all add: inRangeOp_def)
  show ?thesis
  proof (cases "addPoint (internalPoints s) channel point")
    case None
    with assms AddPoint show ?thesis by (simp add: currentPoints_def)
  next
    case (Some newPoints)
    from assms(2) r Some have "allAnchored newPoints" by (rule addPoint_anchored)
    with assms Some AddPoint show ?thesis by (simp add: currentPoints_def updatePoints_def)
  qed
next
  case (RemovePoint channel index)
  show ?thesis
  proof (cases "removePoint (internalPoints s) channel index")
    case None
    with assms RemovePoint show ?thesis by (simp add: currentPoints_def)
  next
    case (Some newPoints)
    from assms(2) Some have "allAnchored newPoints" by (rule removePoint_anchored)
    with assms Some RemovePoint show ?thesis by (simp add: currentPoints_def updatePoints_def)
  qed
next
  case (UpdatePoint channel index newPoint)
  show ?thesis
  proof (cases "updatePoint (internalPoints s) channel index newPoint")
    case (Inl e)
    with assms UpdatePoint show ?thesis by (simp add: currentPoints_def)
  next
    case (Inr newPoints)
    from assms(2) Inr have "allAnchored newPoints" by (rule updatePoint_anchored)
    with assms Inr UpdatePoint show ?thesis by (simp add: currentPoints_def updatePoints_def)
  qed
qed

lemma run_anchored:
  assumes "controlledPoints s = None" and "allAnchored (internalPoints s)"
    and "\<forall>op\<in>set ops. inRangeOp op"
  shows "allAnchored (internalPoints (run s ops))"
  using assms
proof (induction ops arbitrary: s)
  case Nil
  then show ?case by (simp add: run_def)
next
  case (Cons op ops)
  from Cons.prems have "inRangeOp op" by simp
  with Cons.prems(1,2) have "controlledPoints (step s op) = None
      \<and> allAnchored (internalPoints (step s op))"
    by (rule step_anchored)
  with Cons.IH [of "step s op"] Cons.prems(3) show ?case by (simp add: run_def)
qed

lemma invariant_kept_in_range:
  assumes "\<forall>op\<in>set ops. inRangeOp op"
  shows "pointSetInvariant (getChannel (internalPoints (run (initSession kind) ops)) channel)"
proof -
  have a: "allAnchored (internalPoints (initSession kind))"
    unfolding allAnchored_def
  proof
    fix c show "anchored (getChannel (internalPoints (initSession kind)) c)"
      by (cases c) (simp_all add: initSession_def getChannel_def getDefaultChannelPoints_def
          anchored_default)
  qed
  have c: "controlledPoints (initSession kind) = None" by (simp add: initSession_def)
  from c a assms have "allAnchored (internalPoints (run (initSession kind) ops))"
    by (rule run_anchored)
  then show ?thesis by (simp add: allAnchored_def anchored_invariant)
qed

lemma updatePoint_clamps_y:
  assumes "updatePoint points channel index newPoint = Inr newPoints"
    and "0 \<le> index" and "index < int (length (getChannel points channel))"
  shows "py (getChannel newPoints channel ! nat index) = clamp (py newPoint) 0 255"
    and "0 \<le> py (getChannel newPoints channel ! nat index)"
    and "py (getChannel newPoints channel ! nat index) \<le> 255"
proof -
  let ?s = "sortPoints (getChannel points channel)"
  let ?n = "int (length (getChannel points channel))"
  from assms(2,3) have k: "nat index < length ?s" by (simp add: length_sortPoints)
  consider (isFirst) "index = 0" | (isLast) "index \<noteq> 0" "index = ?n - 1"
    | (interior) "1 \<le> index" "index + 1 < ?n"
    using assms(2,3) by linarith
  then have "\<exists>x. getChannel newPoints channel
      = ?s[nat index := \<lparr>px = x, py = clamp (py newPoint) 0 255\<rparr>]"
  proof cases
    case isFirst
    from assms(1) show ?thesis
      unfolding isFirst updatePoint_first using k isFirst
      by (auto simp: mapIndex_eq getChannel_setChannel)
  next
    case isLast
    from assms(1) show ?thesis
      unfolding updatePoint_last [OF isLast] using assms(2,3)
      by (auto simp: mapIndex_eq getChannel_setChannel length_sortPoints)
  next
    case interior
    from assms(1) show ?thesis
      unfolding updatePoint_interior [OF interior] using assms(2,3)
      by (auto simp: mapIndex_eq getChannel_setChannel length_sortPoints)
  qed
  with k show "py (getChannel newPoints channel ! nat index) = clamp (py newPoint) 0 255"
    by auto
  then show "0 \<le> py (getChannel newPoints channel ! nat index)"
    and "py (getChannel newPoints channel ! nat index) \<le> 255"
    by (simp_all add: clamp_def)
qed

end
